theory Spec2Isabelle
  imports Complex_Main
begin

section \<open>VLVector: a vector with inline storage that spills to the heap\<close>

text \<open>
  A shallow embedding of \<^verbatim>\<open>VLVector<T, StaticCapacity>\<close> (VLVector.hpp).

  \<^item> The template parameter \<^verbatim>\<open>StaticCapacity\<close> is the first argument \<open>N\<close> of every
    function that depends on it.
  \<^item> \<^verbatim>\<open>std::size_t\<close> is \<open>nat\<close>, and the allocator always succeeds: the model has
    neither the wrap-around of a 64-bit integer nor a limit on the memory. It agrees
    with the program as long as the sizes and their sums stay below \<open>2 ^ 64\<close>, as those
    of arrays that exist together do; the statement about the capacity computation
    alone carries its bounds explicitly.
  \<^item> A value of type \<^verbatim>\<open>double\<close> is the rational number it denotes. Conversions to
    \<^verbatim>\<open>double\<close> and products in \<^verbatim>\<open>double\<close> round to 53 significant bits, to the nearest
    value and to the even significand on a tie, as IEEE 754 binary64 arithmetic does;
    the exponent is not bounded.
  \<^item> Storage is explicit. A region is the array \<^verbatim>\<open>_staticMem\<close> embedded in the
    object at a given address, a block returned by \<^verbatim>\<open>new T[n]\<close>, or an array that the
    calling program owns. A pointer is a
    region and an offset into it. The memory maps every live region to its cells; a
    region that was never allocated or has been released maps to \<open>None\<close>. Block
    identifiers are never reused, so that every access through a dangling pointer is
    detected.
  \<^item> A cell is \<open>None\<close> as long as it holds the default-initialised \<^verbatim>\<open>T\<close> it was created
    with, and \<open>Some x\<close> once \<open>x\<close> has been assigned to it.
  \<^item> What C++ leaves undefined (an access outside a live region, a range of pointers
    that is not a range) is an error value of the model; the exception of \<^verbatim>\<open>at\<close> is
    the error \<open>OutOfRange\<close>.
  \<^item> Iterators are pointers, as in the source (\<^verbatim>\<open>typedef T* iterator\<close>). The template
    parameter \<^verbatim>\<open>InputIterator\<close> of the range insert and of the range constructor is
    instantiated with pointers as well: the source range is a range of cells of the
    memory, in an array of the calling program, in another container or in the
    container itself. A single-pass iterator, which \<^verbatim>\<open>std::distance\<close> would use up
    before the copy, is not modelled.
\<close>

subsection \<open>Memory\<close>

datatype region = StaticMem nat | HeapBlock nat | ClientArray nat

type_synonym ptr = "region \<times> nat"

datatype error = OutOfRange | InvalidPointer | OutOfBounds

record 'a memory =
  mem :: "region \<rightharpoonup> 'a option list"
  next_block :: nat

definition ptr_add :: "ptr \<Rightarrow> nat \<Rightarrow> ptr" where
  "ptr_add p n = (fst p, snd p + n)"

text \<open>\<^verbatim>\<open>p - q\<close> converted to \<^verbatim>\<open>std::size_t\<close>: defined for two pointers into the same
  region with \<open>q\<close> not after \<open>p\<close>.\<close>

definition ptr_diff :: "ptr \<Rightarrow> ptr \<Rightarrow> error + nat" where
  "ptr_diff p q =
     (if fst p = fst q \<and> snd q \<le> snd p then Inr (snd p - snd q) else Inl InvalidPointer)"

definition load :: "'a memory \<Rightarrow> ptr \<Rightarrow> error + 'a option" where
  "load h p =
     (case mem h (fst p) of
        None \<Rightarrow> Inl InvalidPointer
      | Some cells \<Rightarrow> if snd p < length cells then Inr (cells ! snd p) else Inl OutOfBounds)"

definition store :: "'a memory \<Rightarrow> ptr \<Rightarrow> 'a option \<Rightarrow> error + 'a memory" where
  "store h p x =
     (case mem h (fst p) of
        None \<Rightarrow> Inl InvalidPointer
      | Some cells \<Rightarrow>
          if snd p < length cells
          then Inr (h\<lparr>mem := (mem h)(fst p \<mapsto> cells[snd p := x])\<rparr>)
          else Inl OutOfBounds)"

text \<open>\<^verbatim>\<open>new T[n]\<close>: a fresh block of \<open>n\<close> default-initialised cells.\<close>

definition new_array :: "'a memory \<Rightarrow> nat \<Rightarrow> 'a memory \<times> ptr" where
  "new_array h n =
     (h\<lparr>mem := (mem h)(HeapBlock (next_block h) \<mapsto> replicate n None),
        next_block := Suc (next_block h)\<rparr>,
      (HeapBlock (next_block h), 0))"

text \<open>\<^verbatim>\<open>delete[] p\<close>: nothing for the null pointer (\<open>None\<close>), the release of the block for
  a pointer to the start of a live block, undefined otherwise.\<close>

definition delete_array :: "'a memory \<Rightarrow> ptr option \<Rightarrow> error + 'a memory" where
  "delete_array h p =
     (case p of
        None \<Rightarrow> Inr h
      | Some (StaticMem a, i) \<Rightarrow> Inl InvalidPointer
      | Some (ClientArray a, i) \<Rightarrow> Inl InvalidPointer
      | Some (HeapBlock b, i) \<Rightarrow>
          if i = 0 \<and> mem h (HeapBlock b) \<noteq> None
          then Inr (h\<lparr>mem := (mem h)(HeapBlock b := None)\<rparr>)
          else Inl InvalidPointer)"

text \<open>\<^verbatim>\<open>std::copy(first, last, d_first)\<close>: element by element, from the front.\<close>

primrec copy_loop :: "'a memory \<Rightarrow> ptr \<Rightarrow> ptr \<Rightarrow> nat \<Rightarrow> error + 'a memory" where
  "copy_loop h first d_first 0 = Inr h"
| "copy_loop h first d_first (Suc n) =
     (case load h first of
        Inl e \<Rightarrow> Inl e
      | Inr x \<Rightarrow>
          (case store h d_first x of
             Inl e \<Rightarrow> Inl e
           | Inr h' \<Rightarrow> copy_loop h' (ptr_add first 1) (ptr_add d_first 1) n))"

definition std_copy :: "'a memory \<Rightarrow> ptr \<Rightarrow> ptr \<Rightarrow> ptr \<Rightarrow> error + 'a memory" where
  "std_copy h first lastp d_first =
     (case ptr_diff lastp first of
        Inl e \<Rightarrow> Inl e
      | Inr n \<Rightarrow> copy_loop h first d_first n)"

text \<open>\<^verbatim>\<open>std::copy_backward(first, last, d_last)\<close>: element by element, from the back.\<close>

primrec copy_backward_loop :: "'a memory \<Rightarrow> ptr \<Rightarrow> ptr \<Rightarrow> nat \<Rightarrow> error + 'a memory" where
  "copy_backward_loop h lastp d_last 0 = Inr h"
| "copy_backward_loop h lastp d_last (Suc n) =
     (if snd lastp = 0 \<or> snd d_last = 0 then Inl InvalidPointer
      else
        (case load h (fst lastp, snd lastp - 1) of
           Inl e \<Rightarrow> Inl e
         | Inr x \<Rightarrow>
             (case store h (fst d_last, snd d_last - 1) x of
                Inl e \<Rightarrow> Inl e
              | Inr h' \<Rightarrow>
                  copy_backward_loop h' (fst lastp, snd lastp - 1) (fst d_last, snd d_last - 1) n)))"

definition std_copy_backward :: "'a memory \<Rightarrow> ptr \<Rightarrow> ptr \<Rightarrow> ptr \<Rightarrow> error + 'a memory" where
  "std_copy_backward h first lastp d_last =
     (case ptr_diff lastp first of
        Inl e \<Rightarrow> Inl e
      | Inr n \<Rightarrow> copy_backward_loop h lastp d_last n)"

subsection \<open>Arithmetic in double\<close>

text \<open>The number of binary digits of a natural number.\<close>

fun bit_length :: "nat \<Rightarrow> nat" where
  "bit_length n = (if n = 0 then 0 else Suc (bit_length (n div 2)))"

text \<open>The integer nearest to a rational, the even one of the two on a tie.\<close>

definition round_half_even :: "rat \<Rightarrow> int" where
  "round_half_even x =
     (let f = \<lfloor>x\<rfloor>; r = x - of_int f
      in if r < 1 / 2 then f else if 1 / 2 < r then f + 1 else if even f then f else f + 1)"

text \<open>The \<^verbatim>\<open>double\<close> nearest to \<open>x\<close>, for an \<open>x\<close> that is zero or at least one half, as is
  every number that \<^verbatim>\<open>_cap\<close> rounds (a size, or 1.5 times a size): with \<open>b\<close> the number
  of digits of the integer part of \<open>x\<close>, the significand is \<open>x\<close> scaled by \<open>2 ^ (53 - b)\<close>
  and rounded to an integer.\<close>

definition binary64 :: "rat \<Rightarrow> rat" where
  "binary64 x =
     (let b = bit_length (nat \<lfloor>x\<rfloor>)
      in if 53 \<le> b then of_int (round_half_even (x / 2 ^ (b - 53))) * 2 ^ (b - 53)
         else of_int (round_half_even (x * 2 ^ (53 - b))) / 2 ^ (53 - b))"

text \<open>The conversion of a \<^verbatim>\<open>std::size_t\<close> to \<^verbatim>\<open>double\<close>, the product of two doubles,
  \<^verbatim>\<open>std::floor\<close>, and the conversion of a non-negative \<^verbatim>\<open>double\<close> to \<^verbatim>\<open>std::size_t\<close>,
  which drops the fraction (and is undefined in C++ from \<open>2 ^ 64\<close> on, where the model,
  having no largest size, goes on).\<close>

definition double_of_size_t :: "nat \<Rightarrow> rat" where
  "double_of_size_t n = binary64 (of_nat n)"

definition double_times :: "rat \<Rightarrow> rat \<Rightarrow> rat" where
  "double_times x y = binary64 (x * y)"

definition std_floor :: "rat \<Rightarrow> rat" where
  "std_floor x = of_int \<lfloor>x\<rfloor>"

definition size_t_of_double :: "rat \<Rightarrow> nat" where
  "size_t_of_double x = nat \<lfloor>x\<rfloor>"

subsection \<open>The container\<close>

text \<open>The members \<^verbatim>\<open>_data\<close>, \<^verbatim>\<open>_size\<close> and \<^verbatim>\<open>_capacity\<close>. The member \<^verbatim>\<open>_staticMem\<close> of the
  object at address \<open>this\<close> is the region \<open>StaticMem this\<close> of the memory.\<close>

record VLVector =
  m_data :: ptr
  m_size :: nat
  m_capacity :: nat

text \<open>\<^verbatim>\<open>GROWTH_FACTOR\<close> is \<^verbatim>\<open>(3.0 / 2.0)\<close>, the quotient of two doubles.\<close>

definition GROWTH_FACTOR :: rat where
  "GROWTH_FACTOR = binary64 (3 / 2)"

definition begin_it :: "VLVector \<Rightarrow> ptr" where
  "begin_it v = m_data v"

definition end_it :: "VLVector \<Rightarrow> ptr" where
  "end_it v = ptr_add (m_data v) (m_size v)"

definition cbegin :: "VLVector \<Rightarrow> ptr" where
  "cbegin v = m_data v"

definition cend :: "VLVector \<Rightarrow> ptr" where
  "cend v = ptr_add (m_data v) (m_size v)"

text \<open>\<^verbatim>\<open>operator[]\<close>: the reference \<^verbatim>\<open>_data[idx]\<close>, unchecked.\<close>

definition operator_index :: "VLVector \<Rightarrow> nat \<Rightarrow> ptr" where
  "operator_index v idx = ptr_add (m_data v) idx"

definition operator_index_const :: "VLVector \<Rightarrow> nat \<Rightarrow> ptr" where
  "operator_index_const v idx = ptr_add (m_data v) idx"

text \<open>\<^verbatim>\<open>at\<close>: the reference \<^verbatim>\<open>_data[index]\<close>, or the exception. The mutable form is a
  member function that may change the object, so it returns the memory and the members
  it leaves, together with its result; the const form returns its result only.\<close>

definition at_ref ::
  "'a memory \<Rightarrow> VLVector \<Rightarrow> nat \<Rightarrow> ('a memory \<times> VLVector) \<times> (error + ptr)" where
  "at_ref h v index =
     (if index \<ge> m_size v then ((h, v), Inl OutOfRange)
      else ((h, v), Inr (ptr_add (m_data v) index)))"

definition at_const :: "VLVector \<Rightarrow> nat \<Rightarrow> error + ptr" where
  "at_const v index =
     (if index \<ge> m_size v then Inl OutOfRange else Inr (ptr_add (m_data v) index))"

text \<open>\<^verbatim>\<open>_cap\<close>. The two branches of the conditional expression are a \<^verbatim>\<open>std::size_t\<close> and
  a \<^verbatim>\<open>double\<close>, so that its value is a \<^verbatim>\<open>double\<close>, which the \<^verbatim>\<open>return\<close> converts to
  \<^verbatim>\<open>std::size_t\<close>. The sum \<^verbatim>\<open>_size + additionalSize\<close> is a sum of naturals: it is the sum
  the program computes as long as it is below \<open>2 ^ 64\<close>.\<close>

definition cap :: "nat \<Rightarrow> VLVector \<Rightarrow> nat \<Rightarrow> nat" where
  "cap N v additionalSize =
     size_t_of_double
       (if m_size v + additionalSize \<le> N then double_of_size_t N
        else std_floor
               (double_times GROWTH_FACTOR (double_of_size_t (m_size v + additionalSize))))"

text \<open>\<^verbatim>\<open>VLVector()\<close>: the object at address \<open>this\<close> comes to life with its inline array.\<close>

definition VLVector_default :: "nat \<Rightarrow> nat \<Rightarrow> 'a memory \<Rightarrow> 'a memory \<times> VLVector" where
  "VLVector_default N this h =
     (h\<lparr>mem := (mem h)(StaticMem this \<mapsto> replicate N None)\<rparr>,
      \<lparr>m_data = (StaticMem this, 0), m_size = 0, m_capacity = N\<rparr>)"

text \<open>\<^verbatim>\<open>_pushAt\<close>. The closure \<^verbatim>\<open>pushElements\<close> captures the object by reference: it is a
  function of the memory and of the members at the moment it is called.\<close>

definition pushAt ::
  "nat \<Rightarrow> 'a memory \<Rightarrow> VLVector \<Rightarrow> ptr \<Rightarrow> nat \<Rightarrow>
   ('a memory \<Rightarrow> VLVector \<Rightarrow> error + 'a memory) \<Rightarrow> error + 'a memory \<times> VLVector" where
  "pushAt N h v pos numOfElements pushElements =
     (let initialEnd = end_it v in
      case (if m_size v + numOfElements > m_capacity v
            then (let (h1, newMem) = new_array h (cap N v numOfElements);
                      oldMem = (if m_capacity v \<le> N then None else Some (m_data v));
                      v1 = v\<lparr>m_capacity := cap N v numOfElements\<rparr>
                  in case std_copy h1 (cbegin v1) pos newMem of
                       Inl e \<Rightarrow> Inl e
                     | Inr h2 \<Rightarrow> Inr (h2, v1\<lparr>m_data := newMem\<rparr>, oldMem))
            else Inr (h, v, None)) of
        Inl e \<Rightarrow> Inl e
      | Inr (h2, v2, oldMem) \<Rightarrow>
          (case std_copy_backward h2 pos initialEnd (ptr_add (end_it v2) numOfElements) of
             Inl e \<Rightarrow> Inl e
           | Inr h3 \<Rightarrow>
               (case pushElements h3 v2 of
                  Inl e \<Rightarrow> Inl e
                | Inr h4 \<Rightarrow>
                    (let v3 = v2\<lparr>m_size := m_size v2 + numOfElements\<rparr>
                     in case delete_array h4 oldMem of
                          Inl e \<Rightarrow> Inl e
                        | Inr h5 \<Rightarrow> Inr (h5, v3)))))"

text \<open>\<^verbatim>\<open>insert(pos, first, last)\<close>. \<^verbatim>\<open>std::distance(first, last)\<close> is the difference of the
  two pointers; the closure reads the source range when \<^verbatim>\<open>_pushAt\<close> calls it, after the
  elements from \<open>pos\<close> on have been moved.\<close>

definition insert_range ::
  "nat \<Rightarrow> 'a memory \<Rightarrow> VLVector \<Rightarrow> ptr \<Rightarrow> ptr \<Rightarrow> ptr \<Rightarrow> error + ('a memory \<times> VLVector) \<times> ptr" where
  "insert_range N h v pos first lastp =
     (case ptr_diff lastp first of
        Inl e \<Rightarrow> Inl e
      | Inr numOfElements \<Rightarrow>
      case ptr_diff pos (begin_it v) of
        Inl e \<Rightarrow> Inl e
      | Inr posIdx \<Rightarrow>
          (let pushFunc = (\<lambda>h' v'. std_copy h' first lastp (ptr_add (m_data v') posIdx))
           in case pushAt N h v pos numOfElements pushFunc of
                Inl e \<Rightarrow> Inl e
              | Inr (h', v') \<Rightarrow> Inr ((h', v'), ptr_add (begin_it v') posIdx)))"

text \<open>\<^verbatim>\<open>insert(pos, value)\<close>.\<close>

definition insert_value ::
  "nat \<Rightarrow> 'a memory \<Rightarrow> VLVector \<Rightarrow> ptr \<Rightarrow> 'a \<Rightarrow> error + ('a memory \<times> VLVector) \<times> ptr" where
  "insert_value N h v pos val =
     (case ptr_diff pos (begin_it v) of
        Inl e \<Rightarrow> Inl e
      | Inr idx \<Rightarrow>
          (case pushAt N h v pos 1 (\<lambda>h' v'. store h' (ptr_add (m_data v') idx) (Some val)) of
             Inl e \<Rightarrow> Inl e
           | Inr (h', v') \<Rightarrow> Inr ((h', v'), ptr_add (begin_it v') idx)))"

text \<open>\<^verbatim>\<open>push_back\<close>.\<close>

definition push_back :: "nat \<Rightarrow> 'a memory \<Rightarrow> VLVector \<Rightarrow> 'a \<Rightarrow> error + 'a memory \<times> VLVector" where
  "push_back N h v val =
     pushAt N h v (cend v) 1 (\<lambda>h' v'. store h' (ptr_add (m_data v') (m_size v')) (Some val))"

text \<open>The condition of the shrink branch of \<^verbatim>\<open>erase\<close>:
  \<^verbatim>\<open>_capacity > StaticCapacity && _size - toRemoveSize <= StaticCapacity\<close>. The unsigned
  difference is at most \<^verbatim>\<open>StaticCapacity\<close> only when it does not wrap around.\<close>

definition shrinks_to_inline :: "nat \<Rightarrow> VLVector \<Rightarrow> nat \<Rightarrow> bool" where
  "shrinks_to_inline N v toRemoveSize =
     (m_capacity v > N \<and> toRemoveSize \<le> m_size v \<and> m_size v - toRemoveSize \<le> N)"

text \<open>\<^verbatim>\<open>erase(first, last)\<close>.\<close>

definition erase ::
  "nat \<Rightarrow> nat \<Rightarrow> 'a memory \<Rightarrow> VLVector \<Rightarrow> ptr \<Rightarrow> ptr \<Rightarrow> error + ('a memory \<times> VLVector) \<times> ptr" where
  "erase N this h v first lastp =
     (let initEnd = cend v in
      case ptr_diff lastp first of
        Inl e \<Rightarrow> Inl e
      | Inr toRemoveSize \<Rightarrow>
      case ptr_diff first (begin_it v) of
        Inl e \<Rightarrow> Inl e
      | Inr firstIdx \<Rightarrow>
      case (if shrinks_to_inline N v toRemoveSize
            then (case std_copy h (cbegin v) first (StaticMem this, 0) of
                    Inl e \<Rightarrow> Inl e
                  | Inr h1 \<Rightarrow>
                      Inr (h1, v\<lparr>m_data := (StaticMem this, 0), m_capacity := N\<rparr>,
                           Some (m_data v)))
            else Inr (h, v, None)) of
        Inl e \<Rightarrow> Inl e
      | Inr (h1, v1, oldMem) \<Rightarrow>
          (case std_copy h1 lastp initEnd (ptr_add (begin_it v1) firstIdx) of
             Inl e \<Rightarrow> Inl e
           | Inr h2 \<Rightarrow>
               (let v2 = v1\<lparr>m_size := m_size v1 - toRemoveSize\<rparr>
                in case delete_array h2 oldMem of
                     Inl e \<Rightarrow> Inl e
                   | Inr h3 \<Rightarrow> Inr ((h3, v2), ptr_add (begin_it v2) firstIdx))))"

text \<open>\<^verbatim>\<open>erase(pos)\<close>, \<^verbatim>\<open>pop_back\<close> and \<^verbatim>\<open>clear\<close>.\<close>

definition erase_pos ::
  "nat \<Rightarrow> nat \<Rightarrow> 'a memory \<Rightarrow> VLVector \<Rightarrow> ptr \<Rightarrow> error + ('a memory \<times> VLVector) \<times> ptr" where
  "erase_pos N this h v pos = erase N this h v pos (ptr_add pos 1)"

definition pop_back :: "nat \<Rightarrow> nat \<Rightarrow> 'a memory \<Rightarrow> VLVector \<Rightarrow> error + 'a memory \<times> VLVector" where
  "pop_back N this h v =
     (if snd (cend v) = 0 then Inl InvalidPointer
      else (case erase_pos N this h v (fst (cend v), snd (cend v) - 1) of
              Inl e \<Rightarrow> Inl e
            | Inr (s, it) \<Rightarrow> Inr s))"

definition clear :: "nat \<Rightarrow> nat \<Rightarrow> 'a memory \<Rightarrow> VLVector \<Rightarrow> error + 'a memory \<times> VLVector" where
  "clear N this h v =
     (case erase N this h v (begin_it v) (end_it v) of
        Inl e \<Rightarrow> Inl e
      | Inr (s, it) \<Rightarrow> Inr s)"

text \<open>\<^verbatim>\<open>_copyMembers\<close> and \<^verbatim>\<open>operator=\<close>. The argument \<open>other_addr\<close> is \<^verbatim>\<open>&other\<close>.\<close>

definition copyMembers ::
  "nat \<Rightarrow> 'a memory \<Rightarrow> VLVector \<Rightarrow> VLVector \<Rightarrow> error + 'a memory \<times> VLVector" where
  "copyMembers N h v other =
     (let (h1, v1) = (if m_capacity other > N
                      then (let (h', newMem) = new_array h (m_capacity other)
                            in (h', v\<lparr>m_data := newMem\<rparr>))
                      else (h, v));
          v2 = v1\<lparr>m_capacity := m_capacity other\<rparr>
      in case std_copy h1 (begin_it other) (end_it other) (begin_it v2) of
           Inl e \<Rightarrow> Inl e
         | Inr h2 \<Rightarrow> Inr (h2, v2\<lparr>m_size := m_size other\<rparr>))"

definition operator_assign ::
  "nat \<Rightarrow> nat \<Rightarrow> 'a memory \<Rightarrow> VLVector \<Rightarrow> nat \<Rightarrow> VLVector \<Rightarrow> error + 'a memory \<times> VLVector" where
  "operator_assign N this h v other_addr other =
     (if other_addr = this then Inr (h, v)
      else (case (if m_capacity v > N then delete_array h (Some (m_data v)) else Inr h) of
              Inl e \<Rightarrow> Inl e
            | Inr h1 \<Rightarrow> copyMembers N h1 v other))"

text \<open>The copy constructor, the range constructor and the destructor.\<close>

definition VLVector_copy ::
  "nat \<Rightarrow> nat \<Rightarrow> 'a memory \<Rightarrow> VLVector \<Rightarrow> error + 'a memory \<times> VLVector" where
  "VLVector_copy N this h other =
     (let (h0, v0) = VLVector_default N this h in copyMembers N h0 v0 other)"

definition VLVector_range ::
  "nat \<Rightarrow> nat \<Rightarrow> 'a memory \<Rightarrow> ptr \<Rightarrow> ptr \<Rightarrow> error + 'a memory \<times> VLVector" where
  "VLVector_range N this h first lastp =
     (let (h0, v0) = VLVector_default N this h
      in case insert_range N h0 v0 (begin_it v0) first lastp of
           Inl e \<Rightarrow> Inl e
         | Inr (s, it) \<Rightarrow> Inr s)"

definition VLVector_destroy :: "nat \<Rightarrow> nat \<Rightarrow> 'a memory \<Rightarrow> VLVector \<Rightarrow> error + 'a memory" where
  "VLVector_destroy N this h v =
     (case (if m_capacity v > N then delete_array h (Some (m_data v)) else Inr h) of
        Inl e \<Rightarrow> Inl e
      | Inr h1 \<Rightarrow> Inr (h1\<lparr>mem := (mem h1)(StaticMem this := None)\<rparr>))"

text \<open>\<^verbatim>\<open>operator==\<close>, with \<^verbatim>\<open>std::equal\<close> as its loop.\<close>

primrec equal_loop :: "'a memory \<Rightarrow> ptr \<Rightarrow> ptr \<Rightarrow> nat \<Rightarrow> error + bool" where
  "equal_loop h first1 first2 0 = Inr True"
| "equal_loop h first1 first2 (Suc n) =
     (case load h first1 of
        Inl e \<Rightarrow> Inl e
      | Inr x \<Rightarrow>
          (case load h first2 of
             Inl e \<Rightarrow> Inl e
           | Inr y \<Rightarrow>
               if x = y then equal_loop h (ptr_add first1 1) (ptr_add first2 1) n
               else Inr False))"

definition std_equal :: "'a memory \<Rightarrow> ptr \<Rightarrow> ptr \<Rightarrow> ptr \<Rightarrow> error + bool" where
  "std_equal h first1 last1 first2 =
     (case ptr_diff last1 first1 of
        Inl e \<Rightarrow> Inl e
      | Inr n \<Rightarrow> equal_loop h first1 first2 n)"

definition operator_eq :: "'a memory \<Rightarrow> VLVector \<Rightarrow> VLVector \<Rightarrow> error + bool" where
  "operator_eq h v other =
     (case ptr_diff (end_it v) (begin_it v) of
        Inl e \<Rightarrow> Inl e
      | Inr n \<Rightarrow>
          (case ptr_diff (end_it other) (begin_it other) of
             Inl e \<Rightarrow> Inl e
           | Inr n' \<Rightarrow>
               if n = n' then std_equal h (begin_it v) (end_it v) (begin_it other)
               else Inr False))"

subsection \<open>The sequence a container holds, and its storage invariant\<close>

text \<open>The live elements: the first \<^verbatim>\<open>_size\<close> cells from \<^verbatim>\<open>_data\<close> on.\<close>

definition contents :: "'a memory \<Rightarrow> VLVector \<Rightarrow> 'a option list" where
  "contents h v =
     (case mem h (fst (m_data v)) of
        None \<Rightarrow> []
      | Some cells \<Rightarrow> take (m_size v) (drop (snd (m_data v)) cells))"

text \<open>The invariant of the data model: the inline array of the object is alive and has
  \<^verbatim>\<open>StaticCapacity\<close> cells; \<^verbatim>\<open>_data\<close> is either that array, with \<^verbatim>\<open>_capacity\<close> equal
  to \<^verbatim>\<open>StaticCapacity\<close>, or the start of a live block of \<^verbatim>\<open>_capacity\<close> cells, with
  \<^verbatim>\<open>_capacity\<close> above \<^verbatim>\<open>StaticCapacity\<close>; and \<^verbatim>\<open>_size\<close> is at most \<^verbatim>\<open>_capacity\<close>.\<close>

definition storage_inv :: "nat \<Rightarrow> nat \<Rightarrow> 'a memory \<Rightarrow> VLVector \<Rightarrow> bool" where
  "storage_inv N this h v =
     ((case mem h (StaticMem this) of None \<Rightarrow> False | Some cells \<Rightarrow> length cells = N)
      \<and> (case m_data v of
            (StaticMem a, i) \<Rightarrow> a = this \<and> i = 0 \<and> m_capacity v = N \<and> m_size v \<le> N
          | (HeapBlock b, i) \<Rightarrow>
              i = 0 \<and> b < next_block h \<and> N < m_capacity v \<and> m_size v \<le> m_capacity v
              \<and> (case mem h (HeapBlock b) of
                    None \<Rightarrow> False
                  | Some cells \<Rightarrow> length cells = m_capacity v)
          | (ClientArray a, i) \<Rightarrow> False))"

definition inline_mode :: "nat \<Rightarrow> VLVector \<Rightarrow> bool" where
  "inline_mode this v = (m_data v = (StaticMem this, 0))"

definition heap_mode :: "'a memory \<Rightarrow> VLVector \<Rightarrow> bool" where
  "heap_mode h v =
     (case m_data v of
        (StaticMem a, i) \<Rightarrow> False
      | (HeapBlock b, i) \<Rightarrow> i = 0 \<and> mem h (HeapBlock b) \<noteq> None
      | (ClientArray a, i) \<Rightarrow> False)"

text \<open>In every state that the operations reach from a constructor, a container in heap
  mode holds more than \<^verbatim>\<open>StaticCapacity\<close> elements.\<close>

definition container_inv :: "nat \<Rightarrow> nat \<Rightarrow> 'a memory \<Rightarrow> VLVector \<Rightarrow> bool" where
  "container_inv N this h v =
     (storage_inv N this h v \<and> (\<not> inline_mode this v \<longrightarrow> N < m_size v))"

text \<open>A sequence of \<^verbatim>\<open>push_back\<close> calls, one for each value of a list.\<close>

fun push_back_seq ::
  "nat \<Rightarrow> 'a memory \<times> VLVector \<Rightarrow> 'a list \<Rightarrow> error + 'a memory \<times> VLVector" where
  "push_back_seq N (h, v) [] = Inr (h, v)"
| "push_back_seq N (h, v) (x # xs) =
     (case push_back N h v x of
        Inl e \<Rightarrow> Inl e
      | Inr s \<Rightarrow> push_back_seq N s xs)"

subsection \<open>Programs over several containers\<close>

text \<open>A world: the containers that are alive, by address, and the memory they share
  with the arrays of the calling program. A call of a public operation on the container
  at address \<open>this\<close> reads its members, runs the operation and stores the members back;
  it is undefined when no container lives at that address.\<close>

record 'a world =
  objs :: "nat \<rightharpoonup> VLVector"
  heap :: "'a memory"

datatype 'a call =
    Construct nat
  | CopyConstruct nat nat
  | RangeConstruct nat ptr ptr
  | Destroy nat
  | Insert nat ptr 'a
  | InsertRange nat ptr ptr ptr
  | PushBack nat 'a
  | PopBack nat
  | Erase nat ptr ptr
  | ErasePos nat ptr
  | Clear nat
  | Assign nat nat
  | WriteAt nat nat 'a
  | WriteIndex nat nat 'a
  | DeclareArray nat "'a list"
  | ReleaseArray nat

definition call_member ::
  "'a world \<Rightarrow> nat \<Rightarrow> ('a memory \<Rightarrow> VLVector \<Rightarrow> error + 'a memory \<times> VLVector) \<Rightarrow> error + 'a world" where
  "call_member w this f =
     (case objs w this of
        None \<Rightarrow> Inl InvalidPointer
      | Some v \<Rightarrow>
          (case f (heap w) v of
             Inl e \<Rightarrow> Inl e
           | Inr (h', v') \<Rightarrow> Inr (w\<lparr>objs := (objs w)(this \<mapsto> v'), heap := h'\<rparr>)))"

definition drop_iterator ::
  "error + ('a memory \<times> VLVector) \<times> ptr \<Rightarrow> error + 'a memory \<times> VLVector" where
  "drop_iterator r = (case r of Inl e \<Rightarrow> Inl e | Inr (s, it) \<Rightarrow> Inr s)"

text \<open>The public operations that can change a container or the memory. \<open>WriteAt\<close> and
  \<open>WriteIndex\<close> are the assignments \<^verbatim>\<open>v.at(i) = x\<close> and \<^verbatim>\<open>v[i] = x\<close> through the references
  that \<^verbatim>\<open>at\<close> and \<^verbatim>\<open>operator[]\<close> return. A constructor runs at an address where no
  container lives. The source range of \<open>RangeConstruct\<close> and of \<open>InsertRange\<close> is any pair
  of pointers. \<open>DeclareArray\<close> and \<open>ReleaseArray\<close> are the calling program bringing an
  array of its own to life, with the values it holds, and ending its life.\<close>

fun exec :: "nat \<Rightarrow> 'a world \<Rightarrow> 'a call \<Rightarrow> error + 'a world" where
  "exec N w (Construct this) =
     (if objs w this \<noteq> None then Inl InvalidPointer
      else (let (h', v) = VLVector_default N this (heap w)
            in Inr (w\<lparr>objs := (objs w)(this \<mapsto> v), heap := h'\<rparr>)))"
| "exec N w (CopyConstruct this other) =
     (if objs w this \<noteq> None then Inl InvalidPointer
      else (case objs w other of
              None \<Rightarrow> Inl InvalidPointer
            | Some u \<Rightarrow>
                (case VLVector_copy N this (heap w) u of
                   Inl e \<Rightarrow> Inl e
                 | Inr (h', v) \<Rightarrow> Inr (w\<lparr>objs := (objs w)(this \<mapsto> v), heap := h'\<rparr>))))"
| "exec N w (RangeConstruct this first lastp) =
     (if objs w this \<noteq> None then Inl InvalidPointer
      else (case VLVector_range N this (heap w) first lastp of
              Inl e \<Rightarrow> Inl e
            | Inr (h', v) \<Rightarrow> Inr (w\<lparr>objs := (objs w)(this \<mapsto> v), heap := h'\<rparr>)))"
| "exec N w (Destroy this) =
     (case objs w this of
        None \<Rightarrow> Inl InvalidPointer
      | Some v \<Rightarrow>
          (case VLVector_destroy N this (heap w) v of
             Inl e \<Rightarrow> Inl e
           | Inr h' \<Rightarrow> Inr (w\<lparr>objs := (objs w)(this := None), heap := h'\<rparr>)))"
| "exec N w (Insert this pos val) =
     call_member w this (\<lambda>h v. drop_iterator (insert_value N h v pos val))"
| "exec N w (InsertRange this pos first lastp) =
     call_member w this (\<lambda>h v. drop_iterator (insert_range N h v pos first lastp))"
| "exec N w (PushBack this val) = call_member w this (\<lambda>h v. push_back N h v val)"
| "exec N w (PopBack this) = call_member w this (\<lambda>h v. pop_back N this h v)"
| "exec N w (Erase this first lastp) =
     call_member w this (\<lambda>h v. drop_iterator (erase N this h v first lastp))"
| "exec N w (ErasePos this pos) =
     call_member w this (\<lambda>h v. drop_iterator (erase_pos N this h v pos))"
| "exec N w (Clear this) = call_member w this (\<lambda>h v. clear N this h v)"
| "exec N w (Assign this other) =
     (case objs w other of
        None \<Rightarrow> Inl InvalidPointer
      | Some u \<Rightarrow> call_member w this (\<lambda>h v. operator_assign N this h v other u))"
| "exec N w (WriteAt this i val) =
     call_member w this
       (\<lambda>h v. case at_ref h v i of
                 ((h1, v1), Inl e) \<Rightarrow> Inl e
               | ((h1, v1), Inr p) \<Rightarrow>
                   (case store h1 p (Some val) of
                      Inl e \<Rightarrow> Inl e
                    | Inr h2 \<Rightarrow> Inr (h2, v1)))"
| "exec N w (WriteIndex this i val) =
     call_member w this
       (\<lambda>h v. case store h (operator_index v i) (Some val) of
                 Inl e \<Rightarrow> Inl e
               | Inr h' \<Rightarrow> Inr (h', v))"
| "exec N w (DeclareArray a vals) =
     (if mem (heap w) (ClientArray a) \<noteq> None then Inl InvalidPointer
      else Inr (w\<lparr>heap := (heap w)\<lparr>mem := (mem (heap w))(ClientArray a \<mapsto> map Some vals)\<rparr>\<rparr>))"
| "exec N w (ReleaseArray a) =
     (if mem (heap w) (ClientArray a) = None then Inl InvalidPointer
      else Inr (w\<lparr>heap := (heap w)\<lparr>mem := (mem (heap w))(ClientArray a := None)\<rparr>\<rparr>))"

text \<open>The worlds that programs reach: from the empty world, by calls that succeed.\<close>

inductive reachable :: "nat \<Rightarrow> 'a world \<Rightarrow> bool" for N :: nat where
  start: "reachable N \<lparr>objs = Map.empty, heap = \<lparr>mem = Map.empty, next_block = 0\<rparr>\<rparr>"
| step: "reachable N w \<Longrightarrow> exec N w c = Inr w' \<Longrightarrow> reachable N w'"

text \<open>What holds of every container of a reachable world: either the invariant above,
  or the state that \<^verbatim>\<open>operator=\<close> leaves in a destination that was in heap mode when the
  source holds no element and is not in heap mode: \<^verbatim>\<open>_data\<close> still points to the
  released block, with \<^verbatim>\<open>_capacity\<close> equal to \<^verbatim>\<open>StaticCapacity\<close> and \<^verbatim>\<open>_size\<close> zero.\<close>

definition dangling_empty :: "nat \<Rightarrow> nat \<Rightarrow> 'a memory \<Rightarrow> VLVector \<Rightarrow> bool" where
  "dangling_empty N this h v =
     ((case mem h (StaticMem this) of None \<Rightarrow> False | Some cells \<Rightarrow> length cells = N)
      \<and> (case m_data v of
            (StaticMem a, i) \<Rightarrow> False
          | (HeapBlock b, i) \<Rightarrow>
              i = 0 \<and> b < next_block h \<and> mem h (HeapBlock b) = None
          | (ClientArray a, i) \<Rightarrow> False)
      \<and> m_size v = 0 \<and> m_capacity v = N)"

definition obj_inv :: "nat \<Rightarrow> nat \<Rightarrow> 'a memory \<Rightarrow> VLVector \<Rightarrow> bool" where
  "obj_inv N this h v = (container_inv N this h v \<or> dangling_empty N this h v)"

definition world_inv :: "nat \<Rightarrow> 'a world \<Rightarrow> bool" where
  "world_inv N w =
     ((\<forall>a v. objs w a = Some v \<longrightarrow> obj_inv N a (heap w) v)
      \<and> (\<forall>a a' v v'. objs w a = Some v \<and> objs w a' = Some v' \<and> a \<noteq> a' \<longrightarrow>
            fst (m_data v) \<noteq> fst (m_data v')))"

text \<open>The effect of a successful member call on the memory: the container is left in a
  state as above, block identifiers only grow, and only the inline array of the
  container, the region \<^verbatim>\<open>_data\<close> pointed to, and fresh blocks may differ.\<close>

definition member_effect ::
  "nat \<Rightarrow> nat \<Rightarrow> 'a memory \<Rightarrow> VLVector \<Rightarrow> 'a memory \<Rightarrow> VLVector \<Rightarrow> bool" where
  "member_effect N this h v h' v' =
     (obj_inv N this h' v'
      \<and> next_block h \<le> next_block h'
      \<and> (\<forall>r. r \<noteq> StaticMem this \<and> r \<noteq> fst (m_data v)
              \<and> (\<forall>b. r = HeapBlock b \<longrightarrow> b < next_block h) \<longrightarrow> mem h' r = mem h r)
      \<and> (fst (m_data v') = StaticMem this \<or> fst (m_data v') = fst (m_data v)
          \<or> (\<exists>b. fst (m_data v') = HeapBlock b \<and> next_block h \<le> b)))"

text \<open>A region that is not a block which \<^verbatim>\<open>new T[n]\<close> has yet to return.\<close>

definition allocated :: "'a memory \<Rightarrow> region \<Rightarrow> bool" where
  "allocated h r = (case r of HeapBlock b \<Rightarrow> b < next_block h | _ \<Rightarrow> True)"

text \<open>A write into the region \<open>r\<close>: the block identifiers and every other region are as
  before, and \<open>r\<close> has as many cells as before.\<close>

definition writes_region :: "'a memory \<Rightarrow> region \<Rightarrow> 'a memory \<Rightarrow> bool" where
  "writes_region h r h' =
     (next_block h' = next_block h
      \<and> (\<forall>r'. r' \<noteq> r \<longrightarrow> mem h' r' = mem h r')
      \<and> map_option length (mem h' r) = map_option length (mem h r))"

subsection \<open>The growth policy\<close>

declare bit_length.simps [simp del]

lemma floor_rat_numeral: "\<lfloor>numeral a / numeral b :: rat\<rfloor> = numeral a div numeral b"
  using floor_divide_of_int_eq [of "numeral a" "numeral b", where ?'a = rat] by simp

lemma bit_length_numeral:
  "bit_length (numeral (Num.Bit0 k)) = Suc (bit_length (numeral k))"
  "bit_length (numeral (Num.Bit1 k)) = Suc (bit_length (numeral k))"
  "bit_length (numeral Num.One) = Suc 0"
  "bit_length (Suc 0) = Suc 0" "bit_length 1 = Suc 0" "bit_length 0 = 0"
  by (subst bit_length.simps, simp add: numeral_Bit0_div_2 numeral_Bit1_div_2 bit_length.simps [of 0])+

lemma bit_length_less: "n < 2 ^ bit_length n"
proof (induction n rule: bit_length.induct)
  case (1 n)
  show ?case
  proof (cases "n = 0")
    case True
    then show ?thesis by simp
  next
    case False
    with 1 have "n div 2 < 2 ^ bit_length (n div 2)" by simp
    then have "n < 2 * 2 ^ bit_length (n div 2)" by linarith
    with False show ?thesis by (subst bit_length.simps) simp
  qed
qed

lemma bit_length_ge: "0 < n \<Longrightarrow> 2 ^ (bit_length n - 1) \<le> n"
proof (induction n rule: bit_length.induct)
  case (1 n)
  then have n: "n \<noteq> 0" by simp
  show ?case
  proof (cases "n div 2 = 0")
    case True
    then have "bit_length n = 1" using n by (subst bit_length.simps) (simp add: bit_length_numeral)
    then show ?thesis using n by simp
  next
    case False
    with 1 n have ih: "2 ^ (bit_length (n div 2) - 1) \<le> n div 2" by simp
    have pos: "0 < bit_length (n div 2)" using False by (subst bit_length.simps) simp
    have "bit_length n - 1 = Suc (bit_length (n div 2) - 1)"
      using n pos by (subst bit_length.simps) simp
    then have "(2::nat) ^ (bit_length n - 1) = 2 * 2 ^ (bit_length (n div 2) - 1)" by simp
    also have "\<dots> \<le> 2 * (n div 2)" using ih by simp
    also have "\<dots> \<le> n" by simp
    finally show ?thesis .
  qed
qed

lemma bit_length_le: "n < 2 ^ k \<Longrightarrow> bit_length n \<le> k"
proof (rule ccontr)
  assume a: "n < 2 ^ k" and "\<not> bit_length n \<le> k"
  then have k: "k \<le> bit_length n - 1" and pos: "0 < n"
    by (auto simp: not_le bit_length_numeral intro: Nat.gr0I)
  have "(2::nat) ^ k \<le> 2 ^ (bit_length n - 1)" using k by (simp add: power_increasing)
  also have "\<dots> \<le> n" using pos by (rule bit_length_ge)
  finally show False using a by simp
qed

lemma bit_length_pos: "0 < n \<Longrightarrow> 0 < bit_length n"
  by (subst bit_length.simps) simp

lemma round_half_even_of_int: "round_half_even (of_int k) = k"
  by (simp add: round_half_even_def)

lemma round_half_even_of_nat: "round_half_even (of_nat m) = int m"
  using round_half_even_of_int [of "int m"] by simp

lemma round_half_even_lower: "x - 1 / 2 \<le> of_int (round_half_even x)"
  unfolding round_half_even_def Let_def by (auto simp: not_less) linarith+

lemma binary64_exact:
  assumes m: "m < 2 ^ 53" and j: "j \<le> 1"
  shows "binary64 (of_nat m / 2 ^ j) = of_nat m / 2 ^ j"
proof -
  define x :: rat where "x = of_nat m / 2 ^ j"
  define b where "b = bit_length (nat \<lfloor>x\<rfloor>)"
  have fl: "nat \<lfloor>x\<rfloor> = m div 2 ^ j"
    unfolding x_def using floor_divide_of_nat_eq [of m "2 ^ j", where ?'a = rat] by simp
  have "m div 2 ^ j < 2 ^ (53 - j)"
    using m j by (simp add: less_mult_imp_div_less power_add [symmetric])
  then have b: "b \<le> 53 - j"
    unfolding b_def fl by (rule bit_length_le)
  have "binary64 x = x"
  proof (cases "53 \<le> b")
    case True
    with b have j0: "j = 0" and b53: "b = 53" by simp_all
    have x: "x = of_nat m"
      using j0 by (simp add: x_def)
    have "binary64 x = of_int (round_half_even x)"
      using b53 by (simp add: binary64_def Let_def b_def [symmetric])
    then show ?thesis
      unfolding x by (simp add: round_half_even_of_nat)
  next
    case False
    define k where "k = 53 - b - j"
    have "53 - b = k + j"
      using b False j by (simp add: k_def)
    then have p: "(2::rat) ^ (53 - b) = 2 ^ k * 2 ^ j"
      by (simp only: power_add)
    have "x * 2 ^ (53 - b) = of_nat m * 2 ^ k"
      unfolding p x_def by simp
    also have "\<dots> = of_int (int m * 2 ^ k)"
      by simp
    finally have sc: "x * 2 ^ (53 - b) = of_int (int m * 2 ^ k)" .
    have "binary64 x = of_int (round_half_even (x * 2 ^ (53 - b))) / 2 ^ (53 - b)"
      using False by (simp add: binary64_def Let_def b_def [symmetric])
    also have "\<dots> = (x * 2 ^ (53 - b)) / 2 ^ (53 - b)"
      unfolding sc round_half_even_of_int ..
    also have "\<dots> = x"
      by simp
    finally show ?thesis .
  qed
  then show ?thesis
    unfolding x_def .
qed

lemma binary64_lower:
  assumes x: "1 \<le> x"
  shows "x - x / 2 ^ 53 \<le> binary64 x"
proof -
  define b where "b = bit_length (nat \<lfloor>x\<rfloor>)"
  have n: "0 < nat \<lfloor>x\<rfloor>" using x by simp
  have "(2::nat) ^ (b - 1) \<le> nat \<lfloor>x\<rfloor>"
    unfolding b_def using n by (rule bit_length_ge)
  then have "(of_nat (2 ^ (b - 1)) :: rat) \<le> of_nat (nat \<lfloor>x\<rfloor>)"
    by (simp only: of_nat_le_iff)
  also have "\<dots> \<le> x" using x by (simp add: of_nat_nat)
  finally have lo: "2 ^ (b - 1) \<le> x" by simp
  have bp: "0 < b" unfolding b_def using n by (rule bit_length_pos)
  show ?thesis
  proof (cases "53 \<le> b")
    case True
    define u :: rat where "u = 2 ^ (b - 53)"
    define R :: rat where "R = of_int (round_half_even (x / u))"
    have "b - 1 = (b - 53) + 52"
      using True by simp
    then have e: "(2::rat) ^ (b - 1) = u * 2 ^ 52"
      unfolding u_def by (simp only: power_add)
    have up: "0 < u" by (simp add: u_def)
    have v: "binary64 x = R * u"
      using True by (simp add: binary64_def Let_def b_def [symmetric] u_def R_def)
    have "x / u - 1 / 2 \<le> R"
      unfolding R_def by (rule round_half_even_lower)
    then have "(x / u - 1 / 2) * u \<le> R * u"
      using up by (simp only: mult_le_cancel_right_pos)
    moreover have "(x / u - 1 / 2) * u = x - u / 2"
      using up by (simp add: field_simps)
    ultimately have a: "x - u / 2 \<le> binary64 x"
      unfolding v by simp
    have "u * 2 ^ 52 \<le> x" using lo e by simp
    then have "u / 2 \<le> x / 2 ^ 53" by simp
    with a show ?thesis by linarith
  next
    case False
    define u :: rat where "u = 2 ^ (53 - b)"
    define R :: rat where "R = of_int (round_half_even (x * u))"
    have "(b - 1) + (53 - b) = 52"
      using False bp by simp
    then have e: "(2::rat) ^ (b - 1) * u = 2 ^ 52"
      unfolding u_def by (simp only: power_add [symmetric])
    have up: "0 < u" by (simp add: u_def)
    have v: "binary64 x = R / u"
      using False by (simp add: binary64_def Let_def b_def [symmetric] u_def R_def)
    have "x * u - 1 / 2 \<le> R"
      unfolding R_def by (rule round_half_even_lower)
    then have "(x * u - 1 / 2) / u \<le> R / u"
      using up by (simp add: divide_right_mono)
    moreover have "(x * u - 1 / 2) / u = x - 1 / (2 * u)"
      using up by (simp add: field_simps)
    ultimately have a: "x - 1 / (2 * u) \<le> binary64 x"
      unfolding v by simp
    have "2 ^ (b - 1) * u \<le> x * u" using lo up by simp
    then have "2 ^ 52 \<le> x * u" unfolding e .
    then have "1 / (2 * u) \<le> x / 2 ^ 53"
      using up x by (simp add: field_simps)
    with a show ?thesis by linarith
  qed
qed

lemma GROWTH_FACTOR_eq: "GROWTH_FACTOR = 3 / 2"
  by (simp add: GROWTH_FACTOR_def binary64_def round_half_even_def Let_def floor_rat_numeral
        bit_length_numeral)

lemma double_of_size_t_exact: "n < 2 ^ 53 \<Longrightarrow> double_of_size_t n = of_nat n"
  using binary64_exact [of n 0] by (simp add: double_of_size_t_def)

lemma growth_exact:
  assumes "3 * s < 2 ^ 53"
  shows "size_t_of_double (std_floor (double_times GROWTH_FACTOR (double_of_size_t s)))
    = 3 * s div 2"
proof -
  have s: "s < 2 ^ 53"
    using assms by simp
  have p: "GROWTH_FACTOR * of_nat s = of_nat (3 * s) / 2 ^ 1"
    by (simp add: GROWTH_FACTOR_eq)
  have "double_times GROWTH_FACTOR (double_of_size_t s) = binary64 (of_nat (3 * s) / 2 ^ 1)"
    unfolding double_times_def double_of_size_t_exact [OF s] p ..
  also have "\<dots> = of_nat (3 * s) / 2 ^ 1"
    using assms by (intro binary64_exact) simp_all
  finally have v: "double_times GROWTH_FACTOR (double_of_size_t s) = of_nat (3 * s) / 2 ^ 1" .
  have f: "\<lfloor>of_nat (3 * s) / 2 ^ 1 :: rat\<rfloor> = int (3 * s div 2)"
    using floor_divide_of_nat_eq [of "3 * s" 2, where ?'a = rat] by simp
  show ?thesis
    unfolding size_t_of_double_def std_floor_def v floor_of_int f by simp
qed

lemma growth_ge:
  assumes "0 < s"
  shows "s \<le> size_t_of_double (std_floor (double_times GROWTH_FACTOR (double_of_size_t s)))"
proof -
  define e :: rat where "e = 1 - 1 / 2 ^ 53"
  define d where "d = double_of_size_t s"
  define z where "z = double_times GROWTH_FACTOR d"
  have e: "0 \<le> e" "1 \<le> 3 / 2 * e * e" "2 / 3 \<le> e"
    by (simp_all add: e_def)
  have s1: "(1::rat) \<le> of_nat s"
    using assms by simp
  have "of_nat s - of_nat s / 2 ^ 53 \<le> binary64 (of_nat s)"
    using s1 by (rule binary64_lower)
  then have d: "e * of_nat s \<le> d"
    by (simp add: d_def double_of_size_t_def e_def algebra_simps)
  have "e * 1 \<le> e * of_nat s"
    using s1 e(1) by (rule mult_left_mono)
  with d e(3) have d1: "2 / 3 \<le> d"
    by linarith
  then have y1: "1 \<le> 3 / 2 * d"
    by simp
  have "3 / 2 * d - (3 / 2 * d) / 2 ^ 53 \<le> binary64 (3 / 2 * d)"
    using y1 by (rule binary64_lower)
  then have z: "e * (3 / 2 * d) \<le> z"
    by (simp add: z_def double_times_def GROWTH_FACTOR_eq e_def algebra_simps)
  have "e * (3 / 2 * (e * of_nat s)) \<le> e * (3 / 2 * d)"
    using d e(1) by (intro mult_left_mono) simp_all
  moreover have "1 * of_nat s \<le> (3 / 2 * e * e) * of_nat s"
    using e(2) by (intro mult_right_mono) simp_all
  ultimately have "of_nat s \<le> z"
    using z by (simp add: algebra_simps)
  then have "of_int (int s) \<le> z"
    by simp
  then have "int s \<le> \<lfloor>z\<rfloor>"
    by (simp only: le_floor_iff)
  then show ?thesis
    by (simp add: size_t_of_double_def std_floor_def z_def d_def)
qed

lemma cap_eq:
  assumes "N < 2 ^ 53" and "3 * (m_size v + k) < 2 ^ 53"
  shows "cap N v k = (if m_size v + k \<le> N then N else 3 * (m_size v + k) div 2)"
proof (cases "m_size v + k \<le> N")
  case True
  then show ?thesis
    by (simp add: cap_def double_of_size_t_exact [OF assms(1)] size_t_of_double_def)
next
  case False
  then show ?thesis
    by (simp add: cap_def growth_exact [OF assms(2)])
qed

lemma cap_ge:
  assumes "N < m_size v + k"
  shows "m_size v + k \<le> cap N v k"
proof -
  have "0 < m_size v + k"
    using assms by linarith
  then have "m_size v + k
    \<le> size_t_of_double (std_floor (double_times GROWTH_FACTOR (double_of_size_t (m_size v + k))))"
    by (rule growth_ge)
  then show ?thesis
    using assms by (simp add: cap_def)
qed

lemma cap_gt: "N < m_size v + k \<Longrightarrow> N < cap N v k"
  using cap_ge [of N v k] by simp

text \<open>
  Claim C5, as stated: for every current size and every additional count, \<open>_cap\<close>
  returns the floor of 1.5 times their sum when the sum exceeds \<open>StaticCapacity\<close>. The
  product is computed in \<^verbatim>\<open>double\<close>, which has 53 significant bits: for the sum
  3002399751580333 the exact product 4503599627370499.5 lies halfway between two
  doubles and is rounded to the even one, 4503599627370500, which is what \<open>_cap\<close>
  returns, one more than the floor of the exact product.
\<close>

theorem cap_exceeds_floor_of_exact_product:
  "cap 4 \<lparr>m_data = (HeapBlock 0, 0), m_size = 3002399751580332,
            m_capacity = 3002399751580332\<rparr> 1 = 4503599627370500
   \<and> nat \<lfloor>(3 / 2 :: rat) * of_nat (3002399751580332 + 1)\<rfloor> = 4503599627370499"
  by (simp add: cap_def GROWTH_FACTOR_eq double_times_def double_of_size_t_def std_floor_def
        size_t_of_double_def binary64_def round_half_even_def Let_def floor_rat_numeral
        bit_length_numeral)

text \<open>
  Claim C5, amended. For a \<open>StaticCapacity\<close> below \<open>2 ^ 53\<close>, and for every current size
  and every additional count with three times their sum below \<open>2 ^ 53\<close> (so that the
  sum, its product with 1.5 and \<open>StaticCapacity\<close> are doubles, and nothing wraps around),
  \<open>_cap\<close> returns \<open>StaticCapacity\<close> when the sum is at most \<open>StaticCapacity\<close>, and
  otherwise the floor of 1.5 times the sum (which is \<open>3 * sum div 2\<close>); in both cases
  the result is at least the sum.
\<close>

theorem cap_growth_policy:
  assumes "N < 2 ^ 53" and "3 * (m_size v + k) < 2 ^ 53"
  shows "(m_size v + k \<le> N \<longrightarrow> cap N v k = N)
   \<and> (N < m_size v + k \<longrightarrow>
        cap N v k = nat \<lfloor>(3 / 2 :: rat) * of_nat (m_size v + k)\<rfloor>
        \<and> cap N v k = 3 * (m_size v + k) div 2)
   \<and> m_size v + k \<le> cap N v k"
proof -
  have fl: "nat \<lfloor>(3 / 2 :: rat) * of_nat (m_size v + k)\<rfloor> = 3 * (m_size v + k) div 2"
  proof -
    have "(3 / 2 :: rat) * of_nat (m_size v + k) = of_nat (3 * (m_size v + k)) / of_nat 2"
      by simp
    then have "\<lfloor>(3 / 2 :: rat) * of_nat (m_size v + k)\<rfloor> = int (3 * (m_size v + k) div 2)"
      by (simp only: floor_divide_of_nat_eq)
    then show ?thesis
      by simp
  qed
  have a: "m_size v + k \<le> N \<longrightarrow> cap N v k = N"
    unfolding cap_eq [OF assms] by simp
  have b: "N < m_size v + k \<longrightarrow> cap N v k = 3 * (m_size v + k) div 2"
    unfolding cap_eq [OF assms] by simp
  have c: "m_size v + k \<le> cap N v k"
  proof (cases "m_size v + k \<le> N")
    case True
    with a show ?thesis by simp
  next
    case False
    then show ?thesis by (simp add: cap_ge)
  qed
  show ?thesis
    using a b c unfolding fl by blast
qed

theorem cap_growth_policy_witness:
  "cap 4 \<lparr>m_data = (StaticMem 0, 0), m_size = 3, m_capacity = 4\<rparr> 1 = 4
   \<and> cap 4 \<lparr>m_data = (StaticMem 0, 0), m_size = 4, m_capacity = 4\<rparr> 1 = 7
   \<and> (4::nat) + 1 \<le> cap 4 \<lparr>m_data = (StaticMem 0, 0), m_size = 4, m_capacity = 4\<rparr> 1"
  using cap_growth_policy [of 4 "\<lparr>m_data = (StaticMem 0, 0), m_size = 3, m_capacity = 4\<rparr>" 1]
    cap_growth_policy [of 4 "\<lparr>m_data = (StaticMem 0, 0), m_size = 4, m_capacity = 4\<rparr>" 1]
  by simp

subsection \<open>Copying between and within regions\<close>

lemma load_Some:
  "mem h r = Some cells \<Longrightarrow> i < length cells \<Longrightarrow> load h (r, i) = Inr (cells ! i)"
  by (simp add: load_def)

lemma store_Some:
  "mem h r = Some cells \<Longrightarrow> i < length cells \<Longrightarrow>
   store h (r, i) x = Inr (h\<lparr>mem := (mem h)(r \<mapsto> cells[i := x])\<rparr>)"
  by (simp add: store_def)

lemma mem_upd_upd:
  "h\<lparr>mem := (mem h)(r \<mapsto> a)\<rparr>\<lparr>mem := (mem (h\<lparr>mem := (mem h)(r \<mapsto> a)\<rparr>))(r \<mapsto> b)\<rparr>
   = h\<lparr>mem := (mem h)(r \<mapsto> b)\<rparr>"
  by simp

lemma mem_cong: "(\<And>r. f r = g r) \<Longrightarrow> h\<lparr>mem := f\<rparr> = h\<lparr>mem := g\<rparr>"
  by (simp add: fun_eq_iff)

lemma slice_step:
  "i < length xs \<Longrightarrow> take (Suc n) (drop i xs) = xs ! i # take n (drop (Suc i) xs)"
  by (simp add: Cons_nth_drop_Suc [symmetric])

lemma copy_loop_other:
  "mem h rs = Some src \<Longrightarrow> mem h rd = Some dst \<Longrightarrow> rs \<noteq> rd \<Longrightarrow>
   i + n \<le> length src \<Longrightarrow> j + n \<le> length dst \<Longrightarrow>
   copy_loop h (rs, i) (rd, j) n
   = Inr (h\<lparr>mem := (mem h)(rd \<mapsto> take j dst @ take n (drop i src) @ drop (j + n) dst)\<rparr>)"
proof (induction n arbitrary: h i j dst)
  case 0
  then have "(mem h)(rd \<mapsto> dst) = mem h"
    by (simp add: fun_upd_idem)
  then show ?case by simp
next
  case (Suc n)
  let ?h' = "h\<lparr>mem := (mem h)(rd \<mapsto> dst[j := src ! i])\<rparr>"
  have ld: "load h (rs, i) = Inr (src ! i)"
    using Suc.prems by (simp add: load_Some)
  have st: "store h (rd, j) (src ! i) = Inr ?h'"
    using Suc.prems by (simp add: store_Some)
  have ih: "copy_loop ?h' (rs, Suc i) (rd, Suc j) n
    = Inr (?h'\<lparr>mem := (mem ?h')(rd \<mapsto> take (Suc j) (dst[j := src ! i]) @ take n (drop (Suc i) src)
         @ drop (Suc j + n) (dst[j := src ! i]))\<rparr>)"
    using Suc.prems by (intro Suc.IH) simp_all
  have l1: "take (Suc j) (dst[j := src ! i]) = take j dst @ [src ! i]"
    using Suc.prems by (simp add: take_Suc_conv_app_nth)
  have l2: "take (Suc n) (drop i src) = src ! i # take n (drop (Suc i) src)"
    using Suc.prems by (simp add: slice_step)
  show ?case
    by (simp only: copy_loop.simps ld st ih ptr_add_def fst_conv snd_conv sum.case
          Suc_eq_plus1 [symmetric] l1 l2)
       (auto intro!: mem_cong)
qed


lemma copy_loop_same:
  "mem h r = Some cells \<Longrightarrow> j \<le> i \<Longrightarrow> i + n \<le> length cells \<Longrightarrow>
   copy_loop h (r, i) (r, j) n
   = Inr (h\<lparr>mem := (mem h)(r \<mapsto> take j cells @ take n (drop i cells) @ drop (j + n) cells)\<rparr>)"
proof (induction n arbitrary: h i j cells)
  case 0
  then have "(mem h)(r \<mapsto> cells) = mem h"
    by (simp add: fun_upd_idem)
  then show ?case by simp
next
  case (Suc n)
  let ?c' = "cells[j := cells ! i]"
  let ?h' = "h\<lparr>mem := (mem h)(r \<mapsto> ?c')\<rparr>"
  have ld: "load h (r, i) = Inr (cells ! i)"
    using Suc.prems by (simp add: load_Some)
  have st: "store h (r, j) (cells ! i) = Inr ?h'"
    using Suc.prems by (simp add: store_Some)
  have ih: "copy_loop ?h' (r, Suc i) (r, Suc j) n
    = Inr (?h'\<lparr>mem := (mem ?h')(r \<mapsto> take (Suc j) ?c' @ take n (drop (Suc i) ?c')
         @ drop (Suc j + n) ?c')\<rparr>)"
    using Suc.prems by (intro Suc.IH) simp_all
  have l1: "take (Suc j) ?c' = take j cells @ [cells ! i]"
    using Suc.prems by (simp add: take_Suc_conv_app_nth)
  have l2: "take (Suc n) (drop i cells) = cells ! i # take n (drop (Suc i) cells)"
    using Suc.prems by (simp add: slice_step)
  have l3: "drop (Suc i) ?c' = drop (Suc i) cells"
    using Suc.prems by simp
  show ?case
    by (simp only: copy_loop.simps ld st ih ptr_add_def fst_conv snd_conv sum.case
          Suc_eq_plus1 [symmetric] l1 l2 l3)
       (auto intro!: mem_cong)
qed

lemma drop_update_same:
  "i < length xs \<Longrightarrow> drop i (xs[i := x]) = x # drop (Suc i) xs"
  by (simp add: upd_conv_take_nth_drop)

lemma slice_snoc:
  "k + n < length xs \<Longrightarrow> take (Suc n) (drop k xs) = take n (drop k xs) @ [xs ! (k + n)]"
  by (simp add: take_Suc_conv_app_nth)

lemma slice_update_above:
  "k + n \<le> m \<Longrightarrow> take n (drop k (xs[m := y])) = take n (drop k xs)"
  by (simp add: drop_update_swap)

lemma copy_backward_loop_other:
  "mem h rs = Some src \<Longrightarrow> mem h rd = Some dst \<Longrightarrow> rs \<noteq> rd \<Longrightarrow>
   n \<le> ie \<Longrightarrow> ie \<le> length src \<Longrightarrow> n \<le> je \<Longrightarrow> je \<le> length dst \<Longrightarrow>
   copy_backward_loop h (rs, ie) (rd, je) n
   = Inr (h\<lparr>mem := (mem h)(rd \<mapsto> take (je - n) dst @ take n (drop (ie - n) src) @ drop je dst)\<rparr>)"
proof (induction n arbitrary: h ie je dst)
  case 0
  then have "(mem h)(rd \<mapsto> dst) = mem h"
    by (simp add: fun_upd_idem)
  then show ?case by simp
next
  case (Suc n)
  let ?x = "src ! (ie - 1)"
  let ?d' = "dst[je - 1 := ?x]"
  let ?h' = "h\<lparr>mem := (mem h)(rd \<mapsto> ?d')\<rparr>"
  have pos: "ie \<noteq> 0" "je \<noteq> 0"
    using Suc.prems by auto
  have ld: "load h (rs, ie - 1) = Inr ?x"
    using Suc.prems by (simp add: load_Some)
  have st: "store h (rd, je - 1) ?x = Inr ?h'"
    using Suc.prems by (simp add: store_Some)
  have ih: "copy_backward_loop ?h' (rs, ie - 1) (rd, je - 1) n
    = Inr (?h'\<lparr>mem := (mem ?h')(rd \<mapsto> take (je - 1 - n) ?d' @ take n (drop (ie - 1 - n) src)
         @ drop (je - 1) ?d')\<rparr>)"
    using Suc.prems by (intro Suc.IH) simp_all
  have l1: "take (je - 1 - n) ?d' = take (je - Suc n) dst"
    by simp
  have l2: "drop (je - 1) ?d' = ?x # drop je dst"
    using Suc.prems drop_update_same [of "je - 1" dst ?x] by simp
  have l3: "take (Suc n) (drop (ie - Suc n) src) = take n (drop (ie - 1 - n) src) @ [?x]"
    using Suc.prems slice_snoc [of "ie - Suc n" n src] by simp
  show ?case
    by (simp only: copy_backward_loop.simps ld st ih fst_conv snd_conv sum.case pos
          if_False simp_thms l1 l2 l3)
       (auto intro!: mem_cong)
qed

lemma copy_backward_loop_same:
  "mem h r = Some cells \<Longrightarrow> n \<le> ie \<Longrightarrow> ie \<le> je \<Longrightarrow> je \<le> length cells \<Longrightarrow>
   copy_backward_loop h (r, ie) (r, je) n
   = Inr (h\<lparr>mem := (mem h)(r \<mapsto> take (je - n) cells @ take n (drop (ie - n) cells)
        @ drop je cells)\<rparr>)"
proof (induction n arbitrary: h ie je cells)
  case 0
  then have "(mem h)(r \<mapsto> cells) = mem h"
    by (simp add: fun_upd_idem)
  then show ?case by simp
next
  case (Suc n)
  let ?x = "cells ! (ie - 1)"
  let ?c' = "cells[je - 1 := ?x]"
  let ?h' = "h\<lparr>mem := (mem h)(r \<mapsto> ?c')\<rparr>"
  have pos: "ie \<noteq> 0" "je \<noteq> 0"
    using Suc.prems by auto
  have ld: "load h (r, ie - 1) = Inr ?x"
    using Suc.prems by (simp add: load_Some)
  have st: "store h (r, je - 1) ?x = Inr ?h'"
    using Suc.prems by (simp add: store_Some)
  have ih: "copy_backward_loop ?h' (r, ie - 1) (r, je - 1) n
    = Inr (?h'\<lparr>mem := (mem ?h')(r \<mapsto> take (je - 1 - n) ?c' @ take n (drop (ie - 1 - n) ?c')
         @ drop (je - 1) ?c')\<rparr>)"
    using Suc.prems by (intro Suc.IH) simp_all
  have l1: "take (je - 1 - n) ?c' = take (je - Suc n) cells"
    by simp
  have l2: "drop (je - 1) ?c' = ?x # drop je cells"
    using Suc.prems drop_update_same [of "je - 1" cells ?x] by simp
  have l3: "take (Suc n) (drop (ie - Suc n) cells) = take n (drop (ie - 1 - n) cells) @ [?x]"
    using Suc.prems slice_snoc [of "ie - Suc n" n cells] by simp
  have l4: "take n (drop (ie - 1 - n) ?c') = take n (drop (ie - 1 - n) cells)"
    using Suc.prems by (intro slice_update_above) simp
  show ?case
    by (simp only: copy_backward_loop.simps ld st ih fst_conv snd_conv sum.case pos
          if_False simp_thms l1 l2 l3 l4)
       (auto intro!: mem_cong)
qed

lemma store_cells:
  assumes "mem h r = Some cells" and "j + length [x] \<le> length cells"
  shows "store h (r, j) x
    = Inr (h\<lparr>mem := (mem h)(r \<mapsto> take j cells @ [x] @ drop (j + length [x]) cells)\<rparr>)"
proof -
  have j: "j < length cells"
    using assms(2) by simp
  then have "cells[j := x] = take j cells @ [x] @ drop (j + length [x]) cells"
    by (simp add: upd_conv_take_nth_drop)
  then show ?thesis
    using assms(1) j by (simp add: store_Some)
qed

lemma std_copy_same:
  "mem h r = Some cells \<Longrightarrow> j \<le> i \<Longrightarrow> i \<le> e \<Longrightarrow> e \<le> length cells \<Longrightarrow>
   std_copy h (r, i) (r, e) (r, j)
   = Inr (h\<lparr>mem := (mem h)(r \<mapsto> take j cells @ take (e - i) (drop i cells)
        @ drop (j + (e - i)) cells)\<rparr>)"
  by (simp add: std_copy_def ptr_diff_def copy_loop_same)

lemma std_copy_other:
  "mem h rs = Some src \<Longrightarrow> mem h rd = Some dst \<Longrightarrow> rs \<noteq> rd \<Longrightarrow>
   i \<le> e \<Longrightarrow> e \<le> length src \<Longrightarrow> j + (e - i) \<le> length dst \<Longrightarrow>
   std_copy h (rs, i) (rs, e) (rd, j)
   = Inr (h\<lparr>mem := (mem h)(rd \<mapsto> take j dst @ take (e - i) (drop i src)
        @ drop (j + (e - i)) dst)\<rparr>)"
  by (simp add: std_copy_def ptr_diff_def copy_loop_other)

lemma std_copy_empty: "std_copy h p p d = Inr h"
  by (simp add: std_copy_def ptr_diff_def)

lemma std_copy_backward_same:
  "mem h r = Some cells \<Longrightarrow> i \<le> e \<Longrightarrow> e \<le> je \<Longrightarrow> je \<le> length cells \<Longrightarrow>
   std_copy_backward h (r, i) (r, e) (r, je)
   = Inr (h\<lparr>mem := (mem h)(r \<mapsto> take (je - (e - i)) cells @ take (e - i) (drop i cells)
        @ drop je cells)\<rparr>)"
  using copy_backward_loop_same [of h r cells "e - i" e je]
  by (simp add: std_copy_backward_def ptr_diff_def)

lemma std_copy_backward_other:
  "mem h rs = Some src \<Longrightarrow> mem h rd = Some dst \<Longrightarrow> rs \<noteq> rd \<Longrightarrow>
   i \<le> e \<Longrightarrow> e \<le> length src \<Longrightarrow> e - i \<le> je \<Longrightarrow> je \<le> length dst \<Longrightarrow>
   std_copy_backward h (rs, i) (rs, e) (rd, je)
   = Inr (h\<lparr>mem := (mem h)(rd \<mapsto> take (je - (e - i)) dst @ take (e - i) (drop i src)
        @ drop je dst)\<rparr>)"
  using copy_backward_loop_other [of h rs src rd dst "e - i" e je]
  by (simp add: std_copy_backward_def ptr_diff_def)

subsection \<open>What erase computes\<close>

lemma erase_in_place:
  assumes d: "m_data v = (r, 0)" and c: "mem h r = Some c" and len: "m_size v \<le> length c"
    and ij: "i \<le> j" "j \<le> m_size v"
    and ns: "\<not> (N < m_capacity v \<and> m_size v - (j - i) \<le> N)"
  shows "erase N this h v (r, i) (r, j)
    = Inr ((h\<lparr>mem := (mem h)(r \<mapsto> take i c @ take (m_size v - j) (drop j c)
              @ drop (i + (m_size v - j)) c)\<rparr>,
            v\<lparr>m_size := m_size v - (j - i)\<rparr>), (r, i))"
proof -
  have cp: "std_copy h (r, j) (r, m_size v) (r, i)
    = Inr (h\<lparr>mem := (mem h)(r \<mapsto> take i c @ take (m_size v - j) (drop j c)
        @ drop (i + (m_size v - j)) c)\<rparr>)"
    using c ij len by (intro std_copy_same) simp_all
  have pd1: "ptr_diff (r, j) (r, i) = Inr (j - i)"
    using ij by (simp add: ptr_diff_def)
  have pd2: "ptr_diff (r, i) (r, 0) = Inr i"
    by (simp add: ptr_diff_def)
  have cnd: "\<not> (N < m_capacity v \<and> j - i \<le> m_size v \<and> m_size v - (j - i) \<le> N)"
    using ns by simp
  show ?thesis
    by (simp add: erase_def shrinks_to_inline_def Let_def d cend_def begin_it_def ptr_add_def pd1 pd2 cnd cp
          delete_array_def)
qed

lemma erase_shrink:
  assumes d: "m_data v = (HeapBlock b, 0)" and c: "mem h (HeapBlock b) = Some c"
    and len: "m_size v \<le> length c"
    and c0: "mem h (StaticMem this) = Some c0" "length c0 = N"
    and ij: "i \<le> j" "j \<le> m_size v"
    and sh: "N < m_capacity v" "m_size v - (j - i) \<le> N"
  shows "erase N this h v (HeapBlock b, i) (HeapBlock b, j)
    = Inr ((h\<lparr>mem := (mem h)(StaticMem this \<mapsto> take i c @ take (m_size v - j) (drop j c)
                @ drop (i + (m_size v - j)) c0,
              HeapBlock b := None)\<rparr>,
            v\<lparr>m_data := (StaticMem this, 0), m_capacity := N,
               m_size := m_size v - (j - i)\<rparr>), (StaticMem this, i))"
proof -
  let ?c1 = "take i c @ drop i c0"
  let ?h1 = "h\<lparr>mem := (mem h)(StaticMem this \<mapsto> ?c1)\<rparr>"
  let ?c2 = "take i c @ take (m_size v - j) (drop j c) @ drop (i + (m_size v - j)) c0"
  let ?h2 = "h\<lparr>mem := (mem h)(StaticMem this \<mapsto> ?c2)\<rparr>"
  have iN: "i \<le> N"
    using ij sh by simp
  have ic: "i \<le> length c"
    using ij len by simp
  have cp1: "std_copy h (HeapBlock b, 0) (HeapBlock b, i) (StaticMem this, 0) = Inr ?h1"
    using std_copy_other [OF c c0(1), of 0 i 0] ij len iN c0(2) by simp
  have l1: "length ?c1 = N"
    using iN ij len c0(2) by simp
  have e1: "std_copy ?h1 (HeapBlock b, j) (HeapBlock b, m_size v) (StaticMem this, i)
    = Inr (?h1\<lparr>mem := (mem ?h1)(StaticMem this \<mapsto> take i ?c1 @ take (m_size v - j) (drop j c)
          @ drop (i + (m_size v - j)) ?c1)\<rparr>)"
    using c ij len sh l1 by (intro std_copy_other) simp_all
  have e2: "take i ?c1 = take i c"
    using ic by simp
  have e3: "drop (i + (m_size v - j)) ?c1 = drop (i + (m_size v - j)) c0"
    using ic by (simp add: add.commute)
  have cp2:
    "std_copy ?h1 (HeapBlock b, j) (HeapBlock b, m_size v) (StaticMem this, i) = Inr ?h2"
    unfolding e1 e2 e3 by simp
  have pd1: "ptr_diff (HeapBlock b, j) (HeapBlock b, i) = Inr (j - i)"
    using ij by (simp add: ptr_diff_def)
  have pd2: "ptr_diff (HeapBlock b, i) (HeapBlock b, 0) = Inr i"
    by (simp add: ptr_diff_def)
  have cnd: "N < m_capacity v \<and> j - i \<le> m_size v \<and> m_size v - (j - i) \<le> N"
    using sh ij by simp
  have dl: "delete_array ?h2 (Some (HeapBlock b, 0))
    = Inr (h\<lparr>mem := (mem h)(StaticMem this \<mapsto> ?c2, HeapBlock b := None)\<rparr>)"
    using c by (simp add: delete_array_def)
  show ?thesis
    by (simp add: erase_def shrinks_to_inline_def Let_def d cend_def cbegin_def begin_it_def ptr_add_def pd1 pd2 cnd
          cp1 cp2 dl)
qed

lemma erase_empty_range:
  assumes d: "m_data v = (r, 0)"
    and ns: "\<not> (N < m_capacity v \<and> m_size v \<le> N)"
    and ok: "i = m_size v \<or> (\<exists>c. mem h r = Some c \<and> m_size v \<le> length c \<and> i \<le> m_size v)"
  shows "erase N this h v (r, i) (r, i) = Inr ((h, v), (r, i))"
proof -
  have cp: "std_copy h (r, i) (r, m_size v) (r, i) = Inr h"
  proof (cases "i = m_size v")
    case True
    then show ?thesis by (simp add: std_copy_empty)
  next
    case False
    with ok obtain c where c: "mem h r = Some c" "m_size v \<le> length c" "i \<le> m_size v"
      by blast
    then have "std_copy h (r, i) (r, m_size v) (r, i)
      = Inr (h\<lparr>mem := (mem h)(r \<mapsto> take i c @ take (m_size v - i) (drop i c)
        @ drop (i + (m_size v - i)) c)\<rparr>)"
      by (intro std_copy_same) simp_all
    moreover have "take i c @ take (m_size v - i) (drop i c) @ drop (i + (m_size v - i)) c = c"
      using c by (metis append_take_drop_id drop_drop add.commute)
    moreover have "(mem h)(r \<mapsto> c) = mem h"
      using c by (simp add: fun_upd_idem)
    ultimately show ?thesis by simp
  qed
  have pd1: "ptr_diff (r, i) (r, i) = Inr 0"
    by (simp add: ptr_diff_def)
  have pd2: "ptr_diff (r, i) (r, 0) = Inr i"
    by (simp add: ptr_diff_def)
  have cnd: "(N < m_capacity v \<and> m_size v \<le> N) = False"
    using ns by simp
  show ?thesis
    by (simp add: erase_def shrinks_to_inline_def Let_def d cend_def begin_it_def ptr_add_def pd1 pd2 cnd cp
          delete_array_def)
qed

subsection \<open>What the insert engine computes\<close>

lemma pushAt_in_place:
  assumes d: "m_data v = (r, 0)" and c: "mem h r = Some c" and len: "length c = m_capacity v"
    and p: "p \<le> m_size v" and fit: "m_size v + length ys \<le> m_capacity v"
    and f: "\<And>c'. length c' = length c \<Longrightarrow>
              f (h\<lparr>mem := (mem h)(r \<mapsto> c')\<rparr>) v
              = Inr (h\<lparr>mem := (mem h)(r \<mapsto> take p c' @ ys @ drop (p + length ys) c')\<rparr>)"
  shows "pushAt N h v (r, p) (length ys) f
    = Inr (h\<lparr>mem := (mem h)(r \<mapsto> take p c @ ys @ take (m_size v - p) (drop p c)
              @ drop (m_size v + length ys) c)\<rparr>,
           v\<lparr>m_size := m_size v + length ys\<rparr>)"
proof -
  let ?n = "length ys"
  let ?c1 = "take (p + ?n) c @ take (m_size v - p) (drop p c) @ drop (m_size v + ?n) c"
  let ?h1 = "h\<lparr>mem := (mem h)(r \<mapsto> ?c1)\<rparr>"
  let ?c2 = "take p c @ ys @ take (m_size v - p) (drop p c) @ drop (m_size v + ?n) c"
  have cnd: "\<not> m_capacity v < m_size v + ?n"
    using fit by simp
  have a1: "m_size v + ?n - (m_size v - p) = p + ?n"
    using p by simp
  have "std_copy_backward h (r, p) (r, m_size v) (r, m_size v + ?n)
    = Inr (h\<lparr>mem := (mem h)(r \<mapsto> take (m_size v + ?n - (m_size v - p)) c
         @ take (m_size v - p) (drop p c) @ drop (m_size v + ?n) c)\<rparr>)"
    using c p fit len by (intro std_copy_backward_same) simp_all
  then have bw: "std_copy_backward h (r, p) (r, m_size v) (r, m_size v + ?n) = Inr ?h1"
    unfolding a1 .
  have l1: "length ?c1 = length c"
    using p fit len by simp
  have e1: "f ?h1 v
    = Inr (h\<lparr>mem := (mem h)(r \<mapsto> take p ?c1 @ ys @ drop (p + ?n) ?c1)\<rparr>)"
    using l1 by (rule f)
  have pn: "p + ?n \<le> length c"
    using p fit len by simp
  have e2: "take p ?c1 = take p c"
    using pn by simp
  have e3: "drop (p + ?n) ?c1 = take (m_size v - p) (drop p c) @ drop (m_size v + ?n) c"
    using pn by simp
  have fv: "f ?h1 v = Inr (h\<lparr>mem := (mem h)(r \<mapsto> ?c2)\<rparr>)"
    unfolding e1 e2 e3 ..
  show ?thesis
    by (simp add: pushAt_def Let_def d end_it_def ptr_add_def cnd bw fv delete_array_def)
qed

lemma pushAt_realloc:
  assumes d: "m_data v = (r, 0)" and c: "mem h r = Some c" and len: "m_size v \<le> length c"
    and fresh: "r \<noteq> HeapBlock (next_block h)"
    and p: "p \<le> m_size v" and grow: "m_capacity v < m_size v + length ys"
    and capN: "N \<le> m_capacity v"
    and old: "m_capacity v \<le> N \<or> (\<exists>b. r = HeapBlock b)"
    and f: "\<And>c'. length c' = cap N v (length ys) \<Longrightarrow>
              f (h\<lparr>mem := (mem h)(HeapBlock (next_block h) \<mapsto> c'),
                   next_block := Suc (next_block h)\<rparr>)
                (v\<lparr>m_capacity := cap N v (length ys), m_data := (HeapBlock (next_block h), 0)\<rparr>)
              = Inr (h\<lparr>mem := (mem h)(HeapBlock (next_block h) \<mapsto>
                        take p c' @ ys @ drop (p + length ys) c'),
                      next_block := Suc (next_block h)\<rparr>)"
  shows "pushAt N h v (r, p) (length ys) f
    = Inr (h\<lparr>mem := (if m_capacity v \<le> N then mem h else (mem h)(r := None))
              (HeapBlock (next_block h) \<mapsto> take p c @ ys
                 @ take (m_size v - p) (drop p c)
                 @ replicate (cap N v (length ys) - (m_size v + length ys)) None),
             next_block := Suc (next_block h)\<rparr>,
           v\<lparr>m_capacity := cap N v (length ys), m_data := (HeapBlock (next_block h), 0),
              m_size := m_size v + length ys\<rparr>)"
proof -
  let ?n = "length ys"
  let ?K = "cap N v ?n"
  let ?nb = "HeapBlock (next_block h)"
  let ?b1 = "take p c @ replicate (?K - p) None"
  let ?b2 = "take (p + ?n) ?b1 @ take (m_size v - p) (drop p c) @ drop (m_size v + ?n) ?b1"
  let ?b3 = "take p c @ ys @ take (m_size v - p) (drop p c)
     @ replicate (?K - (m_size v + ?n)) None"
  define h0 where
    "h0 = h\<lparr>mem := (mem h)(?nb \<mapsto> replicate ?K None), next_block := Suc (next_block h)\<rparr>"
  define h1 where "h1 = h0\<lparr>mem := (mem h0)(?nb \<mapsto> ?b1)\<rparr>"
  define h2 where "h2 = h1\<lparr>mem := (mem h1)(?nb \<mapsto> ?b2)\<rparr>"
  define h3 where "h3 = h\<lparr>mem := (mem h)(?nb \<mapsto> ?b3), next_block := Suc (next_block h)\<rparr>"
  have K: "m_size v + ?n \<le> ?K"
    using grow capN by (intro cap_ge) simp
  have pc: "p \<le> length c"
    using p len by simp
  have na: "new_array h ?K = (h0, (?nb, 0))"
    by (simp add: new_array_def h0_def)
  have c0: "mem h0 r = Some c" and n0: "mem h0 ?nb = Some (replicate ?K None)"
    using c fresh by (simp_all add: h0_def)
  have "std_copy h0 (r, 0) (r, p) (?nb, 0)
    = Inr (h0\<lparr>mem := (mem h0)(?nb \<mapsto> take 0 (replicate ?K None) @ take (p - 0) (drop 0 c)
         @ drop (0 + (p - 0)) (replicate ?K None))\<rparr>)"
    using c0 n0 fresh p len K by (intro std_copy_other) simp_all
  then have cp: "std_copy h0 (r, 0) (r, p) (?nb, 0) = Inr h1"
    by (simp add: h1_def)
  have a1: "m_size v + ?n - (m_size v - p) = p + ?n"
    using p by simp
  have c1: "mem h1 r = Some c" and n1: "mem h1 ?nb = Some ?b1"
    using c0 fresh by (simp_all add: h1_def)
  have lb1: "length ?b1 = ?K"
    using pc p K by simp
  have s1: "m_size v + ?n \<le> length ?b1" "m_size v - p \<le> m_size v + ?n"
    unfolding lb1 using K by simp_all
  have "std_copy_backward h1 (r, p) (r, m_size v) (?nb, m_size v + ?n)
    = Inr (h1\<lparr>mem := (mem h1)(?nb \<mapsto> take (m_size v + ?n - (m_size v - p)) ?b1
         @ take (m_size v - p) (drop p c) @ drop (m_size v + ?n) ?b1)\<rparr>)"
    by (rule std_copy_backward_other [OF c1 n1 fresh p len s1(2) s1(1)])
  then have bw: "std_copy_backward h1 (r, p) (r, m_size v) (?nb, m_size v + ?n) = Inr h2"
    unfolding a1 h2_def .
  have lb2: "length ?b2 = ?K"
    using pc p K len by simp
  have h2: "h2 = h\<lparr>mem := (mem h)(?nb \<mapsto> ?b2), next_block := Suc (next_block h)\<rparr>"
    by (simp add: h2_def h1_def h0_def)
  have e1: "f h2 (v\<lparr>m_capacity := ?K, m_data := (?nb, 0)\<rparr>)
    = Inr (h\<lparr>mem := (mem h)(?nb \<mapsto> take p ?b2 @ ys @ drop (p + ?n) ?b2),
             next_block := Suc (next_block h)\<rparr>)"
    unfolding h2 using lb2 by (rule f)
  have e2: "take p ?b2 = take p c"
    using pc by simp
  have e3: "drop (p + ?n) ?b2
    = take (m_size v - p) (drop p c) @ replicate (?K - (m_size v + ?n)) None"
    using pc p K by simp
  have fv: "f h2 (v\<lparr>m_capacity := ?K, m_data := (?nb, 0)\<rparr>) = Inr h3"
    unfolding e1 e2 e3 h3_def ..
  have h3: "h3 = h\<lparr>mem := (mem h)(?nb \<mapsto> ?b3), next_block := Suc (next_block h)\<rparr>"
    by (rule h3_def)
  show ?thesis
  proof (cases "m_capacity v \<le> N")
    case True
    have "pushAt N h v (r, p) ?n f
      = Inr (h3, v\<lparr>m_capacity := ?K, m_data := (?nb, 0), m_size := m_size v + ?n\<rparr>)"
      by (simp add: pushAt_def Let_def d end_it_def cbegin_def ptr_add_def grow na cp bw fv
            True delete_array_def)
    then show ?thesis
      unfolding h3 using True by simp
  next
    case False
    with old obtain b where b: "r = HeapBlock b"
      by blast
    define h4 where "h4 = h3\<lparr>mem := (mem h3)(HeapBlock b := None)\<rparr>"
    have "mem h3 (HeapBlock b) \<noteq> None"
      using c fresh b by (simp add: h3)
    then have dl: "delete_array h3 (Some (r, 0)) = Inr h4"
      by (simp add: delete_array_def h4_def b)
    have h4: "h4 = h\<lparr>mem := ((mem h)(r := None))(?nb \<mapsto> ?b3), next_block := Suc (next_block h)\<rparr>"
      using fresh b by (intro memory.equality) (auto simp: h4_def h3)
    have "pushAt N h v (r, p) ?n f
      = Inr (h4, v\<lparr>m_capacity := ?K, m_data := (?nb, 0), m_size := m_size v + ?n\<rparr>)"
      using False
      by (simp add: pushAt_def Let_def d end_it_def cbegin_def ptr_add_def grow na cp bw fv
            dl)
    then show ?thesis
      unfolding h4 using False by simp
  qed
qed

subsection \<open>The storage invariant and the sequence held\<close>

lemma storage_inv_cases [consumes 1, case_names inline heap]:
  assumes "storage_inv N this h v"
  obtains
    c0 where "mem h (StaticMem this) = Some c0" "length c0 = N"
      "m_data v = (StaticMem this, 0)" "m_capacity v = N" "m_size v \<le> N"
  | c0 b c where "mem h (StaticMem this) = Some c0" "length c0 = N"
      "m_data v = (HeapBlock b, 0)" "b < next_block h" "mem h (HeapBlock b) = Some c"
      "length c = m_capacity v" "N < m_capacity v" "m_size v \<le> m_capacity v"
  using assms unfolding storage_inv_def
  by (auto split: option.splits prod.splits region.splits)

lemma storage_inv_inlineI:
  "mem h (StaticMem this) = Some c0 \<Longrightarrow> length c0 = N \<Longrightarrow> m_data v = (StaticMem this, 0) \<Longrightarrow>
   m_capacity v = N \<Longrightarrow> m_size v \<le> N \<Longrightarrow> storage_inv N this h v"
  by (simp add: storage_inv_def)

lemma storage_inv_heapI:
  "mem h (StaticMem this) = Some c0 \<Longrightarrow> length c0 = N \<Longrightarrow> m_data v = (HeapBlock b, 0) \<Longrightarrow>
   b < next_block h \<Longrightarrow> mem h (HeapBlock b) = Some c \<Longrightarrow> length c = m_capacity v \<Longrightarrow>
   N < m_capacity v \<Longrightarrow> m_size v \<le> m_capacity v \<Longrightarrow> storage_inv N this h v"
  by (simp add: storage_inv_def)

lemma storage_inv_data:
  assumes "storage_inv N this h v"
  obtains r c where "m_data v = (r, 0)" "mem h r = Some c" "length c = m_capacity v"
    "m_size v \<le> m_capacity v"
    "r = StaticMem this \<and> m_capacity v = N
     \<or> (\<exists>b. r = HeapBlock b \<and> b < next_block h \<and> N < m_capacity v)"
  using assms by (cases rule: storage_inv_cases) auto

lemma contents_cells:
  "m_data v = (r, 0) \<Longrightarrow> mem h r = Some c \<Longrightarrow> contents h v = take (m_size v) c"
  by (simp add: contents_def)

lemma take_prefix: "length xs = k \<Longrightarrow> take k (xs @ ys) = xs"
  by auto

lemma erase_slice:
  assumes "i \<le> j" "j \<le> n" "n \<le> length c"
  shows "take (n - (j - i)) ((take i c @ take (n - j) (drop j c)) @ rest)
    = take i (take n c) @ drop j (take n c)"
proof -
  let ?A = "take i c @ take (n - j) (drop j c)"
  have l: "length ?A = n - (j - i)"
    using assms by simp
  have "take (n - (j - i)) (?A @ rest) = ?A"
    using l by (rule take_prefix)
  moreover have "take i (take n c) = take i c"
    using assms by simp
  moreover have "drop j (take n c) = take (n - j) (drop j c)"
    by (simp add: drop_take)
  ultimately show ?thesis
    by simp
qed

lemma storage_inv_update_cells:
  assumes inv: "storage_inv N this h v" and d: "m_data v = (r, 0)"
    and l: "length c' = m_capacity v" and n: "n \<le> m_capacity v"
  shows "storage_inv N this (h\<lparr>mem := (mem h)(r \<mapsto> c')\<rparr>) (v\<lparr>m_size := n\<rparr>)"
  using inv
proof (cases rule: storage_inv_cases)
  case (inline c0)
  from inline(3) d have r: "r = StaticMem this"
    by simp
  show ?thesis
    using inline l n unfolding r by (simp add: storage_inv_def)
next
  case (heap c0 b c)
  from heap(3) d have r: "r = HeapBlock b"
    by simp
  show ?thesis
    using heap l n unfolding r by (simp add: storage_inv_def)
qed

lemma erase_storage_inv:
  assumes inv: "storage_inv N this h v" and ij: "i \<le> j" "j \<le> m_size v"
  shows "\<exists>h' v'. erase N this h v (ptr_add (begin_it v) i) (ptr_add (begin_it v) j)
           = Inr ((h', v'), ptr_add (begin_it v') i)
         \<and> storage_inv N this h' v'
         \<and> m_size v' = m_size v - (j - i)
         \<and> contents h' v' = take i (contents h v) @ drop j (contents h v)
         \<and> next_block h' = next_block h
         \<and> (N < m_capacity v \<and> m_size v - (j - i) \<le> N \<longrightarrow>
              m_data v' = (StaticMem this, 0) \<and> m_capacity v' = N
              \<and> mem h' (fst (m_data v)) = None
              \<and> (\<forall>r. r \<noteq> StaticMem this \<and> r \<noteq> fst (m_data v) \<longrightarrow> mem h' r = mem h r))
         \<and> (\<not> (N < m_capacity v \<and> m_size v - (j - i) \<le> N) \<longrightarrow>
              m_data v' = m_data v \<and> m_capacity v' = m_capacity v
              \<and> (\<forall>r. r \<noteq> fst (m_data v) \<longrightarrow> mem h' r = mem h r))"
proof -
  from inv obtain r c where d: "m_data v = (r, 0)" "mem h r = Some c"
    "length c = m_capacity v" "m_size v \<le> m_capacity v"
    "r = StaticMem this \<and> m_capacity v = N
     \<or> (\<exists>b. r = HeapBlock b \<and> b < next_block h \<and> N < m_capacity v)"
    by (rule storage_inv_data)
  have len: "m_size v \<le> length c"
    using d by simp
  have ct: "contents h v = take (m_size v) c"
    using d by (simp add: contents_cells)
  let ?c' = "take i c @ take (m_size v - j) (drop j c)"
  have seq: "take (m_size v - (j - i)) (?c' @ rest) = take i (take (m_size v) c) @ drop j (take (m_size v) c)"
    for rest :: "'a option list"
    using erase_slice [OF ij len] .
  show ?thesis
  proof (cases "N < m_capacity v \<and> m_size v - (j - i) \<le> N")
    case False
    let ?h' = "h\<lparr>mem := (mem h)(r \<mapsto> ?c' @ drop (i + (m_size v - j)) c)\<rparr>"
    let ?v' = "v\<lparr>m_size := m_size v - (j - i)\<rparr>"
    have e: "erase N this h v (r, i) (r, j) = Inr ((?h', ?v'), (r, i))"
      using erase_in_place [OF d(1) d(2) len ij False] by simp
    have lc: "length (?c' @ drop (i + (m_size v - j)) c) = length c"
      using ij len by simp
    have inv': "storage_inv N this ?h' ?v'"
      using inv d(1) _ _
    proof (rule storage_inv_update_cells)
      show "length (?c' @ drop (i + (m_size v - j)) c) = m_capacity v"
        using lc d by simp
      show "m_size v - (j - i) \<le> m_capacity v"
        using d by simp
    qed
    have ct': "contents ?h' ?v' = take i (contents h v) @ drop j (contents h v)"
      unfolding ct using seq [of "drop (i + (m_size v - j)) c"] d(1)
      by (simp add: contents_def)
    show ?thesis
      using False e inv' ct' d(1)
      by (intro exI [of _ ?h'] exI [of _ ?v']) (simp add: begin_it_def ptr_add_def)
  next
    case True
    with d obtain b where b: "r = HeapBlock b"
      by auto
    from inv b d obtain c0 where c0: "mem h (StaticMem this) = Some c0" "length c0 = N"
      by (cases rule: storage_inv_cases) auto
    let ?s' = "?c' @ drop (i + (m_size v - j)) c0"
    let ?h' = "h\<lparr>mem := (mem h)(StaticMem this \<mapsto> ?s', HeapBlock b := None)\<rparr>"
    let ?v' = "v\<lparr>m_data := (StaticMem this, 0), m_capacity := N, m_size := m_size v - (j - i)\<rparr>"
    have e: "erase N this h v (HeapBlock b, i) (HeapBlock b, j)
      = Inr ((?h', ?v'), (StaticMem this, i))"
      using erase_shrink [of v b h c this c0 N i j] True d b len c0 ij by simp
    have ls: "length ?s' = N"
      using ij len True c0 by (simp; arith)
    have inv': "storage_inv N this ?h' ?v'"
      using True ls by (simp add: storage_inv_def)
    have ct': "contents ?h' ?v' = take i (contents h v) @ drop j (contents h v)"
      unfolding ct using seq [of "drop (i + (m_size v - j)) c0"]
      by (simp add: contents_def)
    show ?thesis
      using True e inv' ct' d(1) b
      by (intro exI [of _ ?h'] exI [of _ ?v']) (simp add: begin_it_def ptr_add_def)
  qed
qed

lemma insert_slice:
  assumes "p \<le> n" "n \<le> length c"
  shows "take (n + length ys) ((take p c @ ys @ take (n - p) (drop p c)) @ rest)
    = take p (take n c) @ ys @ drop p (take n c)"
proof -
  let ?A = "take p c @ ys @ take (n - p) (drop p c)"
  have l: "length ?A = n + length ys"
    using assms by simp
  have "take (n + length ys) (?A @ rest) = ?A"
    using l by (rule take_prefix)
  moreover have "take p (take n c) = take p c"
    using assms by simp
  moreover have "drop p (take n c) = take (n - p) (drop p c)"
    by (simp add: drop_take)
  ultimately show ?thesis
    by simp
qed

lemma slice_id:
  assumes "p \<le> n"
  shows "take p c @ take (n - p) (drop p c) @ drop n c = c"
proof -
  have "drop n c = drop (n - p) (drop p c)"
    using assms by simp
  then have "take (n - p) (drop p c) @ drop n c = drop p c"
    by (simp only: append_take_drop_id)
  then show ?thesis
    by (simp only: append_take_drop_id)
qed

lemma pushAt_storage_inv:
  assumes inv: "storage_inv N this h v" and p: "p \<le> m_size v"
    and f: "\<And>h1 v1 r1 c1. m_data v1 = (r1, 0) \<Longrightarrow> m_size v1 = m_size v \<Longrightarrow>
              mem h1 r1 = Some c1 \<Longrightarrow> p + length ys \<le> length c1 \<Longrightarrow>
              \<forall>r'. r' \<noteq> r1 \<longrightarrow> mem h1 r' = mem h r' \<Longrightarrow>
              r1 = fst (m_data v) \<or> r1 = HeapBlock (next_block h) \<Longrightarrow>
              f h1 v1 = Inr (h1\<lparr>mem := (mem h1)(r1 \<mapsto> take p c1 @ ys
                                @ drop (p + length ys) c1)\<rparr>)"
  shows "\<exists>h' v'. pushAt N h v (ptr_add (m_data v) p) (length ys) f = Inr (h', v')
         \<and> storage_inv N this h' v'
         \<and> m_size v' = m_size v + length ys
         \<and> contents h' v' = take p (contents h v) @ ys @ drop p (contents h v)
         \<and> (m_size v + length ys \<le> m_capacity v \<longrightarrow>
              m_data v' = m_data v \<and> m_capacity v' = m_capacity v
              \<and> next_block h' = next_block h
              \<and> (\<forall>r. r \<noteq> fst (m_data v) \<longrightarrow> mem h' r = mem h r)
              \<and> (ys = [] \<longrightarrow> h' = h \<and> v' = v))
         \<and> (m_capacity v < m_size v + length ys \<longrightarrow>
              m_data v' = (HeapBlock (next_block h), 0)
              \<and> m_capacity v' = cap N v (length ys)
              \<and> next_block h' = Suc (next_block h)
              \<and> (N < m_capacity v \<longrightarrow> mem h' (fst (m_data v)) = None)
              \<and> (\<forall>r. r \<noteq> HeapBlock (next_block h) \<and> (r \<noteq> fst (m_data v) \<or> m_capacity v \<le> N)
                    \<longrightarrow> mem h' r = mem h r))"
proof -
  from inv obtain r c where d: "m_data v = (r, 0)" "mem h r = Some c"
    "length c = m_capacity v" "m_size v \<le> m_capacity v"
    "r = StaticMem this \<and> m_capacity v = N
     \<or> (\<exists>b. r = HeapBlock b \<and> b < next_block h \<and> N < m_capacity v)"
    by (rule storage_inv_data)
  have len: "m_size v \<le> length c"
    using d by simp
  have capN: "N \<le> m_capacity v"
    using d(5) by auto
  have ct: "contents h v = take (m_size v) c"
    using d by (simp add: contents_cells)
  let ?n = "length ys"
  let ?A = "take p c @ ys @ take (m_size v - p) (drop p c)"
  have seq: "take (m_size v + ?n) (?A @ rest)
    = take p (take (m_size v) c) @ ys @ drop p (take (m_size v) c)"
    for rest :: "'a option list"
    using insert_slice [OF p len] .
  show ?thesis
  proof (cases "m_size v + ?n \<le> m_capacity v")
    case True
    let ?c' = "?A @ drop (m_size v + ?n) c"
    let ?h' = "h\<lparr>mem := (mem h)(r \<mapsto> ?c')\<rparr>"
    let ?v' = "v\<lparr>m_size := m_size v + ?n\<rparr>"
    have f1: "f (h\<lparr>mem := (mem h)(r \<mapsto> c')\<rparr>) v
        = Inr (h\<lparr>mem := (mem h)(r \<mapsto> take p c' @ ys @ drop (p + ?n) c')\<rparr>)"
      if "length c' = length c" for c'
    proof -
      let ?h1 = "h\<lparr>mem := (mem h)(r \<mapsto> c')\<rparr>"
      have "f ?h1 v = Inr (?h1\<lparr>mem := (mem ?h1)(r \<mapsto> take p c' @ ys @ drop (p + ?n) c')\<rparr>)"
      proof (rule f)
        show "m_data v = (r, 0)" "m_size v = m_size v"
          using d(1) by simp_all
        show "mem ?h1 r = Some c'"
          by simp
        show "p + ?n \<le> length c'"
          using that True p d(3) by simp
        show "\<forall>r'. r' \<noteq> r \<longrightarrow> mem ?h1 r' = mem h r'"
          by simp
        show "r = fst (m_data v) \<or> r = HeapBlock (next_block h)"
          using d(1) by simp
      qed
      then show ?thesis
        by simp
    qed
    have e: "pushAt N h v (r, p) ?n f = Inr (?h', ?v')"
      using pushAt_in_place [where f = f and ys = ys and N = N, OF d(1) d(2) d(3) p True f1]
      by simp
    have lc: "length ?c' = m_capacity v"
      using p True d by simp
    have inv': "storage_inv N this ?h' ?v'"
      using inv d(1) lc True by (rule storage_inv_update_cells)
    have ct': "contents ?h' ?v' = take p (contents h v) @ ys @ drop p (contents h v)"
      unfolding ct using seq [of "drop (m_size v + ?n) c"] d(1)
      by (simp add: contents_def)
    have nop: "?h' = h \<and> ?v' = v" if "ys = []"
    proof -
      have "?c' = c"
        using that slice_id [OF p, of c] by simp
      then have "(mem h)(r \<mapsto> ?c') = mem h"
        using d(2) by (simp add: fun_upd_idem)
      then show ?thesis
        using that by simp
    qed
    have fr: "\<forall>r'. r' \<noteq> fst (m_data v) \<longrightarrow> mem ?h' r' = mem h r'"
      using d(1) by simp
    have e': "pushAt N h v (ptr_add (m_data v) p) ?n f = Inr (?h', ?v')"
      using e d(1) by (simp add: ptr_add_def)
    have v1: "m_size ?v' = m_size v + ?n" "m_data ?v' = m_data v" "m_capacity ?v' = m_capacity v"
      "next_block ?h' = next_block h"
      by simp_all
    have ng: "\<not> m_capacity v < m_size v + ?n"
      using True by simp
    show ?thesis
      using True ng e' inv' ct' nop fr v1
      by (intro exI [of _ ?h'] exI [of _ ?v']) blast
  next
    case False
    then have grow: "m_capacity v < m_size v + ?n"
      by simp
    let ?nb = "HeapBlock (next_block h)"
    let ?K = "cap N v ?n"
    let ?b' = "?A @ replicate (?K - (m_size v + ?n)) None"
    let ?h' = "h\<lparr>mem := (if m_capacity v \<le> N then mem h else (mem h)(r := None))(?nb \<mapsto> ?b'),
                 next_block := Suc (next_block h)\<rparr>"
    let ?v' = "v\<lparr>m_capacity := ?K, m_data := (?nb, 0), m_size := m_size v + ?n\<rparr>"
    have fresh: "r \<noteq> ?nb"
      using d(5) by auto
    have old: "m_capacity v \<le> N \<or> (\<exists>b. r = HeapBlock b)"
      using d(5) by auto
    have K: "m_size v + ?n \<le> ?K"
      using grow capN by (intro cap_ge) simp
    have f2: "f (h\<lparr>mem := (mem h)(?nb \<mapsto> c'), next_block := Suc (next_block h)\<rparr>)
          (v\<lparr>m_capacity := ?K, m_data := (?nb, 0)\<rparr>)
        = Inr (h\<lparr>mem := (mem h)(?nb \<mapsto> take p c' @ ys @ drop (p + ?n) c'),
                 next_block := Suc (next_block h)\<rparr>)"
      if "length c' = ?K" for c'
    proof -
      let ?h1 = "h\<lparr>mem := (mem h)(?nb \<mapsto> c'), next_block := Suc (next_block h)\<rparr>"
      let ?v1 = "v\<lparr>m_capacity := ?K, m_data := (?nb, 0)\<rparr>"
      have "f ?h1 ?v1
        = Inr (?h1\<lparr>mem := (mem ?h1)(?nb \<mapsto> take p c' @ ys @ drop (p + ?n) c')\<rparr>)"
      proof (rule f)
        show "m_data ?v1 = (?nb, 0)" "m_size ?v1 = m_size v"
          by simp_all
        show "mem ?h1 ?nb = Some c'"
          by simp
        show "p + ?n \<le> length c'"
          using that K p by simp
        show "\<forall>r'. r' \<noteq> ?nb \<longrightarrow> mem ?h1 r' = mem h r'"
          by simp
        show "?nb = fst (m_data v) \<or> ?nb = HeapBlock (next_block h)"
          by simp
      qed
      then show ?thesis
        by simp
    qed
    have e: "pushAt N h v (r, p) ?n f = Inr (?h', ?v')"
      using pushAt_realloc [where f = f and ys = ys and N = N,
          OF d(1) d(2) len fresh p grow capN old f2]
      by simp
    have KN: "N < ?K"
      using d(5) grow K by auto
    have lb: "length ?b' = ?K"
      using p len K by simp
    from inv obtain c0 where c0: "mem h (StaticMem this) = Some c0" "length c0 = N"
      by (cases rule: storage_inv_cases) auto
    have st: "mem ?h' (StaticMem this) = Some c0"
      using c0 d(5) by auto
    have inv': "storage_inv N this ?h' ?v'"
      using st c0(2) lb K KN by (simp add: storage_inv_def)
    have ct': "contents ?h' ?v' = take p (contents h v) @ ys @ drop p (contents h v)"
      unfolding ct using seq [of "replicate (?K - (m_size v + ?n)) None"]
      by (simp add: contents_def)
    have fr: "N < m_capacity v \<longrightarrow> mem ?h' (fst (m_data v)) = None"
      using d(1) fresh by simp
    have fr2: "\<forall>r'. r' \<noteq> ?nb \<and> (r' \<noteq> fst (m_data v) \<or> m_capacity v \<le> N)
                    \<longrightarrow> mem ?h' r' = mem h r'"
      using d(1) by simp
    have e': "pushAt N h v (ptr_add (m_data v) p) ?n f = Inr (?h', ?v')"
      using e d(1) by (simp add: ptr_add_def)
    have v1: "m_size ?v' = m_size v + ?n" "m_data ?v' = (?nb, 0)" "m_capacity ?v' = ?K"
      "next_block ?h' = Suc (next_block h)"
      by simp_all
    show ?thesis
      using False grow e' inv' ct' fr fr2 v1
      by (intro exI [of _ ?h'] exI [of _ ?v']) blast
  qed
qed

subsection \<open>Checked access\<close>

text \<open>
  Claim C7. For every container and every index \<open>i\<close>, \<open>at(i)\<close> raises the out-of-range
  error if and only if \<open>i \<ge> size\<close>; for \<open>i < size\<close> it returns the reference that the
  unchecked \<open>operator[]\<close> returns, which in a container that satisfies the storage
  invariant holds the live element at index \<open>i\<close>; the mutable form leaves the memory
  and the members as they were in either case; the const form behaves the same.
\<close>

theorem at_checked_access:
  "(snd (at_ref h v i) = Inl OutOfRange \<longleftrightarrow> m_size v \<le> i)
   \<and> (at_const v i = Inl OutOfRange \<longleftrightarrow> m_size v \<le> i)
   \<and> fst (at_ref h v i) = (h, v)
   \<and> (i < m_size v \<longrightarrow>
         snd (at_ref h v i) = Inr (operator_index v i)
         \<and> at_const v i = Inr (operator_index_const v i)
         \<and> (storage_inv N this h v \<longrightarrow>
              load h (operator_index v i) = Inr (contents h v ! i)
              \<and> load h (operator_index_const v i) = Inr (contents h v ! i)))"
proof -
  have "load h (ptr_add (m_data v) i) = Inr (contents h v ! i)"
    if inv: "storage_inv N this h v" and i: "i < m_size v"
  proof -
    from inv obtain r c where d: "m_data v = (r, 0)" "mem h r = Some c"
      "length c = m_capacity v" "m_size v \<le> m_capacity v"
      by (rule storage_inv_data)
    then show ?thesis
      using i by (simp add: ptr_add_def load_Some contents_cells)
  qed
  then show ?thesis
    by (simp add: at_ref_def at_const_def operator_index_def operator_index_const_def)
qed

theorem at_checked_access_witness:
  "storage_inv 4 0 \<lparr>mem = [StaticMem 0 \<mapsto> [Some 10, Some 20, None, None]], next_block = 0\<rparr>
      \<lparr>m_data = (StaticMem 0, 0), m_size = 2, m_capacity = 4\<rparr>
   \<and> snd (at_ref \<lparr>mem = [StaticMem 0 \<mapsto> [Some (10::nat), Some 20, None, None]], next_block = 0\<rparr>
      \<lparr>m_data = (StaticMem 0, 0), m_size = 2, m_capacity = 4\<rparr> 1) = Inr (StaticMem 0, 1)
   \<and> load \<lparr>mem = [StaticMem 0 \<mapsto> [Some (10::nat), Some 20, None, None]], next_block = 0\<rparr>
      (operator_index \<lparr>m_data = (StaticMem 0, 0), m_size = 2, m_capacity = 4\<rparr> 1) = Inr (Some 20)
   \<and> snd (at_ref \<lparr>mem = [StaticMem 0 \<mapsto> [Some (10::nat), Some 20, None, None]], next_block = 0\<rparr>
      \<lparr>m_data = (StaticMem 0, 0), m_size = 2, m_capacity = 4\<rparr> 2) = Inl OutOfRange"
  using at_checked_access [of "\<lparr>mem = [StaticMem 0 \<mapsto> [Some (10::nat), Some 20, None, None]], next_block = 0\<rparr>"
      "\<lparr>m_data = (StaticMem 0, 0), m_size = 2, m_capacity = 4\<rparr>" 1 4 0]
    at_checked_access [of "\<lparr>mem = [StaticMem 0 \<mapsto> [Some (10::nat), Some 20, None, None]], next_block = 0\<rparr>"
      "\<lparr>m_data = (StaticMem 0, 0), m_size = 2, m_capacity = 4\<rparr>" 2 4 0]
  by (simp add: storage_inv_def contents_def operator_index_def ptr_add_def)

subsection \<open>Erasure and insertion\<close>

lemma heap_mode_capacity:
  "storage_inv N this h v \<Longrightarrow> heap_mode h v \<Longrightarrow> N < m_capacity v"
  by (cases rule: storage_inv_cases) (auto simp: heap_mode_def)

text \<open>
  Claim C3. In a container in heap mode with more than \<open>StaticCapacity\<close> elements, the
  call \<open>erase(first, last)\<close> that brings the size to at most \<open>StaticCapacity\<close> switches
  the container back to its inline array at that very call (capacity equal to
  \<open>StaticCapacity\<close>, the block released), the surviving elements keeping their order,
  while an erase that leaves the size above \<open>StaticCapacity\<close> leaves the capacity and the
  block as they were.
\<close>

theorem erase_shrinks_at_threshold:
  assumes "storage_inv N this h v" and "heap_mode h v" and "N < m_size v"
    and "i \<le> j" and "j \<le> m_size v"
  shows "\<exists>h' v'. erase N this h v (ptr_add (begin_it v) i) (ptr_add (begin_it v) j)
           = Inr ((h', v'), ptr_add (begin_it v') i)
         \<and> m_size v' = m_size v - (j - i)
         \<and> contents h' v' = take i (contents h v) @ drop j (contents h v)
         \<and> storage_inv N this h' v'
         \<and> (m_size v' \<le> N \<longrightarrow>
              m_capacity v' = N \<and> inline_mode this v' \<and> mem h' (fst (m_data v)) = None)
         \<and> (N < m_size v' \<longrightarrow>
              m_capacity v' = m_capacity v \<and> m_data v' = m_data v \<and> heap_mode h' v')"
proof -
  have cap: "N < m_capacity v"
    using assms(1,2) by (rule heap_mode_capacity)
  from erase_storage_inv [OF assms(1,4,5)] obtain h' v' where
    e: "erase N this h v (ptr_add (begin_it v) i) (ptr_add (begin_it v) j)
          = Inr ((h', v'), ptr_add (begin_it v') i)"
    and inv': "storage_inv N this h' v'"
    and sz: "m_size v' = m_size v - (j - i)"
    and ct: "contents h' v' = take i (contents h v) @ drop j (contents h v)"
    and sh: "N < m_capacity v \<and> m_size v - (j - i) \<le> N \<longrightarrow>
              m_data v' = (StaticMem this, 0) \<and> m_capacity v' = N
              \<and> mem h' (fst (m_data v)) = None"
    and ns: "\<not> (N < m_capacity v \<and> m_size v - (j - i) \<le> N) \<longrightarrow>
              m_data v' = m_data v \<and> m_capacity v' = m_capacity v"
    by blast
  have a: "m_size v' \<le> N \<longrightarrow>
      m_capacity v' = N \<and> inline_mode this v' \<and> mem h' (fst (m_data v)) = None"
    using sh cap sz by (simp add: inline_mode_def)
  have b: "N < m_size v' \<longrightarrow>
      m_capacity v' = m_capacity v \<and> m_data v' = m_data v \<and> heap_mode h' v'"
  proof
    assume big: "N < m_size v'"
    then have same: "m_data v' = m_data v" "m_capacity v' = m_capacity v"
      using ns sz by simp_all
    from inv' have "heap_mode h' v'"
      using big by (cases rule: storage_inv_cases) (auto simp: heap_mode_def)
    with same show "m_capacity v' = m_capacity v \<and> m_data v' = m_data v \<and> heap_mode h' v'"
      by simp
  qed
  show ?thesis
    using e sz ct inv' a b by blast
qed

theorem erase_shrinks_at_threshold_witness:
  "storage_inv 4 0
     \<lparr>mem = [StaticMem 0 \<mapsto> [None, None, None, None],
             HeapBlock 0 \<mapsto> [Some (1::nat), Some 2, Some 3, Some 4, Some 5, None, None]],
      next_block = 1\<rparr>
     \<lparr>m_data = (HeapBlock 0, 0), m_size = 5, m_capacity = 7\<rparr>
   \<and> heap_mode
     \<lparr>mem = [StaticMem 0 \<mapsto> [None, None, None, None],
             HeapBlock 0 \<mapsto> [Some (1::nat), Some 2, Some 3, Some 4, Some 5, None, None]],
      next_block = 1\<rparr>
     \<lparr>m_data = (HeapBlock 0, 0), m_size = 5, m_capacity = 7\<rparr>
   \<and> (\<exists>h' v'. erase 4 0
          \<lparr>mem = [StaticMem 0 \<mapsto> [None, None, None, None],
                  HeapBlock 0 \<mapsto> [Some (1::nat), Some 2, Some 3, Some 4, Some 5, None, None]],
           next_block = 1\<rparr>
          \<lparr>m_data = (HeapBlock 0, 0), m_size = 5, m_capacity = 7\<rparr>
          (HeapBlock 0, 1) (HeapBlock 0, 2)
        = Inr ((h', v'), (StaticMem 0, 1))
      \<and> m_size v' = 4 \<and> m_capacity v' = 4 \<and> inline_mode 0 v'
      \<and> contents h' v' = [Some 1, Some 3, Some 4, Some 5]
      \<and> mem h' (HeapBlock 0) = None)"
proof -
  let ?h = "\<lparr>mem = [StaticMem 0 \<mapsto> [None, None, None, None],
             HeapBlock 0 \<mapsto> [Some (1::nat), Some 2, Some 3, Some 4, Some 5, None, None]],
      next_block = 1\<rparr>"
  let ?v = "\<lparr>m_data = (HeapBlock 0, 0), m_size = 5, m_capacity = 7\<rparr>"
  have inv: "storage_inv 4 0 ?h ?v"
    by (simp add: storage_inv_def)
  have hm: "heap_mode ?h ?v"
    by (simp add: heap_mode_def)
  have sz: "4 < m_size ?v" and ij: "(1::nat) \<le> 2" "2 \<le> m_size ?v"
    by simp_all
  from erase_shrinks_at_threshold [OF inv hm sz ij] obtain h' v' where
    e: "erase 4 0 ?h ?v (ptr_add (begin_it ?v) 1) (ptr_add (begin_it ?v) 2)
          = Inr ((h', v'), ptr_add (begin_it v') 1)"
    and s: "m_size v' = m_size ?v - (2 - 1)"
    and c: "contents h' v' = take 1 (contents ?h ?v) @ drop 2 (contents ?h ?v)"
    and a: "m_size v' \<le> 4 \<longrightarrow>
              m_capacity v' = 4 \<and> inline_mode 0 v' \<and> mem h' (fst (m_data ?v)) = None"
    by blast
  have s': "m_size v' = 4"
    using s by simp
  have a': "m_capacity v' = 4" "inline_mode 0 v'" "mem h' (HeapBlock 0) = None"
    using a s' by simp_all
  have e': "erase 4 0 ?h ?v (HeapBlock 0, 1) (HeapBlock 0, 2) = Inr ((h', v'), (StaticMem 0, 1))"
    using e a'(2) by (simp add: begin_it_def ptr_add_def inline_mode_def numeral_2_eq_2)
  have c': "contents h' v' = [Some 1, Some 3, Some 4, Some 5]"
    using c by (simp add: contents_def)
  show ?thesis
    using inv hm e' s' a' c' by blast
qed

text \<open>
  Claim C8, as stated: \<open>clear()\<close> always triggers the inline-shrink path. It does not in
  a container in inline mode: the branch of \<open>erase\<close> is guarded by
  \<^verbatim>\<open>_capacity > StaticCapacity\<close>, which is false there, and \<open>clear()\<close> only sets the size to
  zero.
\<close>

theorem clear_inline_skips_shrink_branch:
  "storage_inv 4 0
     \<lparr>mem = [StaticMem 0 \<mapsto> [Some (1::nat), None, None, None]], next_block = 0\<rparr>
     \<lparr>m_data = (StaticMem 0, 0), m_size = 1, m_capacity = 4\<rparr>
   \<and> \<not> shrinks_to_inline 4 \<lparr>m_data = (StaticMem 0, 0), m_size = 1, m_capacity = 4\<rparr>
         (m_size \<lparr>m_data = (StaticMem 0, 0), m_size = 1, m_capacity = 4\<rparr>)
   \<and> clear 4 0
        \<lparr>mem = [StaticMem 0 \<mapsto> [Some (1::nat), None, None, None]], next_block = 0\<rparr>
        \<lparr>m_data = (StaticMem 0, 0), m_size = 1, m_capacity = 4\<rparr>
      = Inr (\<lparr>mem = [StaticMem 0 \<mapsto> [Some 1, None, None, None]], next_block = 0\<rparr>,
             \<lparr>m_data = (StaticMem 0, 0), m_size = 0, m_capacity = 4\<rparr>)"
  by (simp add: storage_inv_def shrinks_to_inline_def clear_def erase_def Let_def begin_it_def
        end_it_def cend_def ptr_add_def ptr_diff_def std_copy_def delete_array_def)

text \<open>
  Claim C8, amended. In every container that satisfies the storage invariant, \<open>clear()\<close>
  is \<open>erase(begin(), end())\<close> without its result, and leaves the container empty, with
  capacity \<open>StaticCapacity\<close> and its inline array as storage; it takes the shrink branch
  exactly when the container is in heap mode, and then the block is released.
\<close>

theorem clear_is_erase_all:
  assumes "storage_inv N this h v"
  shows "\<exists>h' v' it. erase N this h v (begin_it v) (end_it v) = Inr ((h', v'), it)
         \<and> clear N this h v = Inr (h', v')
         \<and> m_size v' = 0 \<and> m_capacity v' = N \<and> inline_mode this v'
         \<and> contents h' v' = []
         \<and> storage_inv N this h' v'
         \<and> (shrinks_to_inline N v (m_size v) \<longleftrightarrow> heap_mode h v)
         \<and> (heap_mode h v \<longrightarrow> mem h' (fst (m_data v)) = None)"
proof -
  have b: "ptr_add (begin_it v) 0 = begin_it v"
    and e: "ptr_add (begin_it v) (m_size v) = end_it v"
    by (simp_all add: ptr_add_def begin_it_def end_it_def)
  from erase_storage_inv [OF assms, of 0 "m_size v"] obtain h' v' where
    er0: "erase N this h v (ptr_add (begin_it v) 0) (ptr_add (begin_it v) (m_size v))
           = Inr ((h', v'), ptr_add (begin_it v') 0)"
    and inv': "storage_inv N this h' v'"
    and sz0: "m_size v' = m_size v - (m_size v - 0)"
    and ct0: "contents h' v' = take 0 (contents h v) @ drop (m_size v) (contents h v)"
    and sh0: "N < m_capacity v \<and> m_size v - (m_size v - 0) \<le> N \<longrightarrow>
              m_data v' = (StaticMem this, 0) \<and> m_capacity v' = N
              \<and> mem h' (fst (m_data v)) = None
              \<and> (\<forall>r. r \<noteq> StaticMem this \<and> r \<noteq> fst (m_data v) \<longrightarrow> mem h' r = mem h r)"
    and ns0: "\<not> (N < m_capacity v \<and> m_size v - (m_size v - 0) \<le> N) \<longrightarrow>
              m_data v' = m_data v \<and> m_capacity v' = m_capacity v
              \<and> (\<forall>r. r \<noteq> fst (m_data v) \<longrightarrow> mem h' r = mem h r)"
    by blast
  have er: "erase N this h v (begin_it v) (end_it v) = Inr ((h', v'), ptr_add (begin_it v') 0)"
    using er0 unfolding b e .
  have sz: "m_size v' = 0"
    using sz0 by simp
  have "length (contents h v) \<le> m_size v"
    by (simp add: contents_def split: option.splits)
  then have ct: "contents h' v' = []"
    using ct0 by simp
  have sh: "N < m_capacity v \<longrightarrow>
              m_data v' = (StaticMem this, 0) \<and> m_capacity v' = N
              \<and> mem h' (fst (m_data v)) = None"
    using sh0 by simp
  have ns: "\<not> N < m_capacity v \<longrightarrow> m_data v' = m_data v \<and> m_capacity v' = m_capacity v"
    using ns0 by simp
  have cl: "clear N this h v = Inr (h', v')"
    by (simp add: clear_def er)
  have md: "m_capacity v' = N \<and> inline_mode this v'"
    using assms
  proof (cases rule: storage_inv_cases)
    case (inline c0)
    with ns show ?thesis by (simp add: inline_mode_def)
  next
    case (heap c0 b c)
    with sh show ?thesis by (simp add: inline_mode_def)
  qed
  have hp: "heap_mode h v \<longrightarrow> mem h' (fst (m_data v)) = None"
    using heap_mode_capacity [OF assms] sh by simp
  have br: "shrinks_to_inline N v (m_size v) \<longleftrightarrow> heap_mode h v"
    using assms
  proof (cases rule: storage_inv_cases)
    case (inline c0)
    then show ?thesis by (simp add: shrinks_to_inline_def heap_mode_def)
  next
    case (heap c0 b c)
    then show ?thesis by (simp add: shrinks_to_inline_def heap_mode_def)
  qed
  show ?thesis
    using er cl sz md ct inv' hp br by blast
qed

theorem clear_is_erase_all_witness:
  "storage_inv 4 0
     \<lparr>mem = [StaticMem 0 \<mapsto> [None, None, None, None],
             HeapBlock 0 \<mapsto> [Some (1::nat), Some 2, Some 3, Some 4, Some 5, None, None]],
      next_block = 1\<rparr>
     \<lparr>m_data = (HeapBlock 0, 0), m_size = 5, m_capacity = 7\<rparr>
   \<and> heap_mode
     \<lparr>mem = [StaticMem 0 \<mapsto> [None, None, None, None],
             HeapBlock 0 \<mapsto> [Some (1::nat), Some 2, Some 3, Some 4, Some 5, None, None]],
      next_block = 1\<rparr>
     \<lparr>m_data = (HeapBlock 0, 0), m_size = 5, m_capacity = 7\<rparr>
   \<and> shrinks_to_inline 4 \<lparr>m_data = (HeapBlock 0, 0), m_size = 5, m_capacity = 7\<rparr> 5
   \<and> (\<exists>h'. clear 4 0
          \<lparr>mem = [StaticMem 0 \<mapsto> [None, None, None, None],
                  HeapBlock 0 \<mapsto> [Some (1::nat), Some 2, Some 3, Some 4, Some 5, None, None]],
           next_block = 1\<rparr>
          \<lparr>m_data = (HeapBlock 0, 0), m_size = 5, m_capacity = 7\<rparr>
        = Inr (h', \<lparr>m_data = (StaticMem 0, 0), m_size = 0, m_capacity = 4\<rparr>)
      \<and> mem h' (HeapBlock 0) = None)"
proof -
  let ?h = "\<lparr>mem = [StaticMem 0 \<mapsto> [None, None, None, None],
             HeapBlock 0 \<mapsto> [Some (1::nat), Some 2, Some 3, Some 4, Some 5, None, None]],
      next_block = 1\<rparr>"
  let ?v = "\<lparr>m_data = (HeapBlock 0, 0), m_size = 5, m_capacity = 7\<rparr>"
  have inv: "storage_inv 4 0 ?h ?v"
    by (simp add: storage_inv_def)
  have hm: "heap_mode ?h ?v"
    by (simp add: heap_mode_def)
  from clear_is_erase_all [OF inv] obtain h' v' where
    c: "clear 4 0 ?h ?v = Inr (h', v')"
    and s: "m_size v' = 0" "m_capacity v' = 4" "inline_mode 0 v'"
    and t: "shrinks_to_inline 4 ?v (m_size ?v) \<longleftrightarrow> heap_mode ?h ?v"
    and r: "heap_mode ?h ?v \<longrightarrow> mem h' (fst (m_data ?v)) = None"
    by blast
  have v': "v' = \<lparr>m_data = (StaticMem 0, 0), m_size = 0, m_capacity = 4\<rparr>"
    using s by (cases v') (simp add: inline_mode_def)
  have m: "mem h' (HeapBlock 0) = None"
    using r hm by simp
  have "shrinks_to_inline 4 ?v 5"
    using t hm by simp
  then show ?thesis
    using inv hm c v' m by blast
qed

text \<open>
  Claim C10. For \<open>begin() \<le> first \<le> last \<le> end()\<close>, when \<open>erase(first, last)\<close> takes its
  shrink branch, the copy into the inline array moves exactly \<open>first - begin()\<close>
  elements, that number is at most \<open>StaticCapacity\<close>, the copy succeeds (it reaches
  neither the out-of-bounds nor any other error of the model) and writes only the first
  \<open>first - begin()\<close> cells of the inline array; the whole call succeeds.
\<close>

theorem erase_shrink_copy_in_bounds:
  assumes "storage_inv N this h v" and "i \<le> j" and "j \<le> m_size v"
    and "shrinks_to_inline N v (j - i)"
  shows "ptr_diff (ptr_add (begin_it v) i) (cbegin v) = Inr i
         \<and> i \<le> N
         \<and> (\<exists>c c0. mem h (fst (m_data v)) = Some c \<and> mem h (StaticMem this) = Some c0
               \<and> length c0 = N
               \<and> std_copy h (cbegin v) (ptr_add (begin_it v) i) (StaticMem this, 0)
                   = Inr (h\<lparr>mem := (mem h)(StaticMem this \<mapsto> take i c @ drop i c0)\<rparr>))
         \<and> (\<exists>s it. erase N this h v (ptr_add (begin_it v) i) (ptr_add (begin_it v) j)
               = Inr (s, it))"
proof -
  have br: "N < m_capacity v" "m_size v - (j - i) \<le> N"
    using assms(4) by (simp_all add: shrinks_to_inline_def)
  from assms(1) br(1) obtain c0 b c where
    c0: "mem h (StaticMem this) = Some c0" "length c0 = N"
    and d: "m_data v = (HeapBlock b, 0)"
    and c: "mem h (HeapBlock b) = Some c" "length c = m_capacity v"
    and sz: "m_size v \<le> m_capacity v"
    by (cases rule: storage_inv_cases) auto
  have iN: "i \<le> N"
    using assms(2,3) br(2) by simp
  have pd: "ptr_diff (ptr_add (begin_it v) i) (cbegin v) = Inr i"
    by (simp add: ptr_diff_def ptr_add_def begin_it_def cbegin_def)
  have "std_copy h (HeapBlock b, 0) (HeapBlock b, i) (StaticMem this, 0)
    = Inr (h\<lparr>mem := (mem h)(StaticMem this \<mapsto> take 0 c0 @ take (i - 0) (drop 0 c)
        @ drop (0 + (i - 0)) c0)\<rparr>)"
    using c c0 iN assms(2,3) sz by (intro std_copy_other) simp_all
  then have cp: "std_copy h (cbegin v) (ptr_add (begin_it v) i) (StaticMem this, 0)
    = Inr (h\<lparr>mem := (mem h)(StaticMem this \<mapsto> take i c @ drop i c0)\<rparr>)"
    by (simp add: cbegin_def begin_it_def ptr_add_def d)
  have er: "\<exists>s it. erase N this h v (ptr_add (begin_it v) i) (ptr_add (begin_it v) j)
    = Inr (s, it)"
    using erase_storage_inv [OF assms(1,2,3)] by blast
  show ?thesis
    using pd iN cp er c0 c(1) d by auto
qed

theorem erase_shrink_copy_in_bounds_witness:
  "storage_inv 4 0
     \<lparr>mem = [StaticMem 0 \<mapsto> [None, None, None, None],
             HeapBlock 0 \<mapsto> [Some (1::nat), Some 2, Some 3, Some 4, Some 5, None, None]],
      next_block = 1\<rparr>
     \<lparr>m_data = (HeapBlock 0, 0), m_size = 5, m_capacity = 7\<rparr>
   \<and> shrinks_to_inline 4 \<lparr>m_data = (HeapBlock 0, 0), m_size = 5, m_capacity = 7\<rparr> (4 - 3)
   \<and> std_copy
        \<lparr>mem = [StaticMem 0 \<mapsto> [None, None, None, None],
                HeapBlock 0 \<mapsto> [Some (1::nat), Some 2, Some 3, Some 4, Some 5, None, None]],
         next_block = 1\<rparr>
        (HeapBlock 0, 0) (HeapBlock 0, 3) (StaticMem 0, 0)
      = Inr \<lparr>mem = [StaticMem 0 \<mapsto> [Some 1, Some 2, Some 3, None],
                HeapBlock 0 \<mapsto> [Some 1, Some 2, Some 3, Some 4, Some 5, None, None]],
              next_block = 1\<rparr>
   \<and> (\<exists>s it. erase 4 0
          \<lparr>mem = [StaticMem 0 \<mapsto> [None, None, None, None],
                  HeapBlock 0 \<mapsto> [Some (1::nat), Some 2, Some 3, Some 4, Some 5, None, None]],
           next_block = 1\<rparr>
          \<lparr>m_data = (HeapBlock 0, 0), m_size = 5, m_capacity = 7\<rparr>
          (HeapBlock 0, 3) (HeapBlock 0, 4) = Inr (s, it))"
proof -
  let ?h = "\<lparr>mem = [StaticMem 0 \<mapsto> [None, None, None, None],
             HeapBlock 0 \<mapsto> [Some (1::nat), Some 2, Some 3, Some 4, Some 5, None, None]],
      next_block = 1\<rparr>"
  let ?v = "\<lparr>m_data = (HeapBlock 0, 0), m_size = 5, m_capacity = 7\<rparr>"
  have inv: "storage_inv 4 0 ?h ?v"
    by (simp add: storage_inv_def)
  have ij: "(3::nat) \<le> 4" "4 \<le> m_size ?v" and br: "shrinks_to_inline 4 ?v (4 - 3)"
    by (simp_all add: shrinks_to_inline_def)
  from erase_shrink_copy_in_bounds [OF inv ij br] obtain c c0 s it where
    m: "mem ?h (fst (m_data ?v)) = Some c" "mem ?h (StaticMem 0) = Some c0"
    and cp: "std_copy ?h (cbegin ?v) (ptr_add (begin_it ?v) 3) (StaticMem 0, 0)
               = Inr (?h\<lparr>mem := (mem ?h)(StaticMem 0 \<mapsto> take 3 c @ drop 3 c0)\<rparr>)"
    and e: "erase 4 0 ?h ?v (ptr_add (begin_it ?v) 3) (ptr_add (begin_it ?v) 4) = Inr (s, it)"
    by blast
  have c: "c = [Some 1, Some 2, Some 3, Some 4, Some 5, None, None]"
    and c0: "c0 = [None, None, None, None]"
    using m by simp_all
  have cp': "std_copy ?h (HeapBlock 0, 0) (HeapBlock 0, 3) (StaticMem 0, 0)
      = Inr \<lparr>mem = [StaticMem 0 \<mapsto> [Some 1, Some 2, Some 3, None],
                HeapBlock 0 \<mapsto> [Some 1, Some 2, Some 3, Some 4, Some 5, None, None]],
              next_block = 1\<rparr>"
    using cp unfolding c c0
    by (simp add: cbegin_def begin_it_def ptr_add_def fun_upd_twist)
  have e': "erase 4 0 ?h ?v (HeapBlock 0, 3) (HeapBlock 0, 4) = Inr (s, it)"
    using e by (simp add: begin_it_def ptr_add_def)
  show ?thesis
    using inv br cp' e' by blast
qed

text \<open>
  Claim C4, as stated: for every source range, the range insert leaves the container
  holding the elements before the position, then the source range, then the elements
  from the position on. The closure that copies the source range runs after \<open>_pushAt\<close>
  has moved the elements from the position on, so a source range inside the storage of
  the container itself is read after it has been overwritten: in the container holding
  \<open>[1, 2]\<close>, reached by two calls of \<open>push_back\<close>, \<open>insert(begin(), begin() + 1, end())\<close>
  inserts the range \<open>[2]\<close> and leaves \<open>[1, 1, 2]\<close>, not \<open>[2, 1, 2]\<close>.
\<close>

theorem insert_range_reads_moved_elements:
  "reachable 4
     \<lparr>objs = [0 \<mapsto> \<lparr>m_data = (StaticMem 0, 0), m_size = 2, m_capacity = 4\<rparr>],
      heap = \<lparr>mem = [StaticMem 0 \<mapsto> [Some (1::nat), Some 2, None, None]], next_block = 0\<rparr>\<rparr>
   \<and> contents \<lparr>mem = [StaticMem 0 \<mapsto> [Some (1::nat), Some 2, None, None]], next_block = 0\<rparr>
        \<lparr>m_data = (StaticMem 0, 0), m_size = 2, m_capacity = 4\<rparr> = [Some 1, Some 2]
   \<and> insert_range 4
        \<lparr>mem = [StaticMem 0 \<mapsto> [Some (1::nat), Some 2, None, None]], next_block = 0\<rparr>
        \<lparr>m_data = (StaticMem 0, 0), m_size = 2, m_capacity = 4\<rparr>
        (StaticMem 0, 0) (StaticMem 0, 1) (StaticMem 0, 2)
      = Inr ((\<lparr>mem = [StaticMem 0 \<mapsto> [Some 1, Some 1, Some 2, None]], next_block = 0\<rparr>,
              \<lparr>m_data = (StaticMem 0, 0), m_size = 3, m_capacity = 4\<rparr>), (StaticMem 0, 0))
   \<and> contents \<lparr>mem = [StaticMem 0 \<mapsto> [Some (1::nat), Some 1, Some 2, None]], next_block = 0\<rparr>
        \<lparr>m_data = (StaticMem 0, 0), m_size = 3, m_capacity = 4\<rparr> = [Some 1, Some 1, Some 2]"
proof -
  let ?w0 = "\<lparr>objs = Map.empty, heap = \<lparr>mem = Map.empty, next_block = 0\<rparr>\<rparr> :: nat world"
  let ?w1 = "\<lparr>objs = [0 \<mapsto> \<lparr>m_data = (StaticMem 0, 0), m_size = 0, m_capacity = 4\<rparr>],
      heap = \<lparr>mem = [StaticMem 0 \<mapsto> replicate 4 (None :: nat option)], next_block = 0\<rparr>\<rparr>"
  let ?w2 = "\<lparr>objs = [0 \<mapsto> \<lparr>m_data = (StaticMem 0, 0), m_size = 1, m_capacity = 4\<rparr>],
      heap = \<lparr>mem = [StaticMem 0 \<mapsto> [Some (1::nat), None, None, None]], next_block = 0\<rparr>\<rparr>"
  let ?w3 = "\<lparr>objs = [0 \<mapsto> \<lparr>m_data = (StaticMem 0, 0), m_size = 2, m_capacity = 4\<rparr>],
      heap = \<lparr>mem = [StaticMem 0 \<mapsto> [Some (1::nat), Some 2, None, None]], next_block = 0\<rparr>\<rparr>"
  have e1: "exec 4 ?w0 (Construct 0) = Inr ?w1"
    by (simp add: VLVector_default_def)
  have e2: "exec 4 ?w1 (PushBack 0 1) = Inr ?w2"
    by (simp add: call_member_def push_back_def cend_def pushAt_def Let_def end_it_def
          ptr_add_def ptr_diff_def std_copy_backward_def store_def delete_array_def
          eval_nat_numeral)
  have e3: "exec 4 ?w2 (PushBack 0 2) = Inr ?w3"
    by (simp add: call_member_def push_back_def cend_def pushAt_def Let_def end_it_def
          ptr_add_def ptr_diff_def std_copy_backward_def store_def delete_array_def
          eval_nat_numeral)
  have r: "reachable 4 ?w3"
    using reachable.step [OF reachable.step [OF reachable.step [OF reachable.start e1] e2] e3] .
  have c: "contents \<lparr>mem = [StaticMem 0 \<mapsto> [Some (1::nat), Some 2, None, None]], next_block = 0\<rparr>
        \<lparr>m_data = (StaticMem 0, 0), m_size = 2, m_capacity = 4\<rparr> = [Some 1, Some 2]"
    by (simp add: contents_def eval_nat_numeral)
  have i: "insert_range 4
        \<lparr>mem = [StaticMem 0 \<mapsto> [Some (1::nat), Some 2, None, None]], next_block = 0\<rparr>
        \<lparr>m_data = (StaticMem 0, 0), m_size = 2, m_capacity = 4\<rparr>
        (StaticMem 0, 0) (StaticMem 0, 1) (StaticMem 0, 2)
      = Inr ((\<lparr>mem = [StaticMem 0 \<mapsto> [Some 1, Some 1, Some 2, None]], next_block = 0\<rparr>,
              \<lparr>m_data = (StaticMem 0, 0), m_size = 3, m_capacity = 4\<rparr>), (StaticMem 0, 0))"
    by (simp add: insert_range_def pushAt_def Let_def begin_it_def end_it_def ptr_add_def
          ptr_diff_def std_copy_def std_copy_backward_def load_def store_def delete_array_def
          eval_nat_numeral)
  have c': "contents \<lparr>mem = [StaticMem 0 \<mapsto> [Some (1::nat), Some 1, Some 2, None]], next_block = 0\<rparr>
        \<lparr>m_data = (StaticMem 0, 0), m_size = 3, m_capacity = 4\<rparr> = [Some 1, Some 1, Some 2]"
    by (simp add: contents_def eval_nat_numeral)
  show ?thesis
    using r c i c' by blast
qed

text \<open>
  Claim C4, amended. In a container that satisfies the storage invariant and holds the
  sequence \<open>s\<close>, for every position \<open>p\<close> in \<open>[begin, end]\<close> and every source range of
  pointers \<open>[first, last)\<close> into a live array other than the storage of the container,
  the range insert leaves the container holding the elements of \<open>s\<close> before \<open>p\<close>, then the
  elements of the source range, then the elements of \<open>s\<close> from \<open>p\<close> on, and returns the
  iterator to the first inserted element; when the source range is empty nothing
  changes and that iterator is the original position. (The invariant leaves out the
  state in which the assignment of claim C1 leaves its destination.)
\<close>

theorem insert_range_result:
  assumes "storage_inv N this h v" and "p \<le> m_size v"
    and "mem h rs = Some src" and "allocated h rs" and "i + n \<le> length src"
    and "rs \<noteq> fst (m_data v)"
  shows "\<exists>h' v'. insert_range N h v (ptr_add (begin_it v) p) (rs, i) (rs, i + n)
           = Inr ((h', v'), ptr_add (begin_it v') p)
         \<and> contents h' v' = take p (contents h v) @ take n (drop i src) @ drop p (contents h v)
         \<and> m_size v' = m_size v + n
         \<and> storage_inv N this h' v'
         \<and> (n = 0 \<longrightarrow> h' = h \<and> v' = v
              \<and> ptr_add (begin_it v') p = ptr_add (begin_it v) p)"
proof -
  let ?ys = "take n (drop i src)"
  let ?f = "\<lambda>h' v'. std_copy h' (rs, i) (rs, i + n) (ptr_add (m_data v') p)"
  have ln: "length ?ys = n"
    using assms(5) by simp
  have nb: "rs \<noteq> HeapBlock (next_block h)"
    using assms(4) by (auto simp: allocated_def)
  have pd: "ptr_diff (ptr_add (m_data v) p) (m_data v) = Inr p"
    "ptr_diff (rs, i + n) (rs, i) = Inr n"
    by (simp_all add: ptr_diff_def ptr_add_def)
  have f: "?f h1 v1 = Inr (h1\<lparr>mem := (mem h1)(r1 \<mapsto> take p c1 @ ?ys
                                @ drop (p + length ?ys) c1)\<rparr>)"
    if a: "m_data v1 = (r1, 0)" "mem h1 r1 = Some c1" "p + length ?ys \<le> length c1"
      "\<forall>r'. r' \<noteq> r1 \<longrightarrow> mem h1 r' = mem h r'"
      "r1 = fst (m_data v) \<or> r1 = HeapBlock (next_block h)"
    for h1 :: "'a memory" and v1 r1 c1
  proof -
    have ne: "rs \<noteq> r1"
      using a(5) assms(6) nb by auto
    then have src: "mem h1 rs = Some src"
      using a(4) assms(3) by simp
    have "std_copy h1 (rs, i) (rs, i + n) (r1, p)
      = Inr (h1\<lparr>mem := (mem h1)(r1 \<mapsto> take p c1 @ take (i + n - i) (drop i src)
           @ drop (p + (i + n - i)) c1)\<rparr>)"
      using src a(2) ne _ assms(5)
    proof (rule std_copy_other)
      show "i \<le> i + n"
        by simp
      show "p + (i + n - i) \<le> length c1"
        using a(3) ln by simp
    qed
    then show ?thesis
      using a(1) ln by (simp add: ptr_add_def)
  qed
  from pushAt_storage_inv [where f = ?f and ys = ?ys, OF assms(1,2) f]
  obtain h' v' where
    e: "pushAt N h v (ptr_add (m_data v) p) (length ?ys) ?f = Inr (h', v')"
    and inv': "storage_inv N this h' v'"
    and sz: "m_size v' = m_size v + length ?ys"
    and ct: "contents h' v' = take p (contents h v) @ ?ys @ drop p (contents h v)"
    and nop: "m_size v + length ?ys \<le> m_capacity v \<longrightarrow> (?ys = [] \<longrightarrow> h' = h \<and> v' = v)"
    by blast
  have fit: "m_size v + length ?ys \<le> m_capacity v" if "n = 0"
    using assms(1) that by (cases rule: storage_inv_cases) simp_all
  have ins: "insert_range N h v (ptr_add (begin_it v) p) (rs, i) (rs, i + n)
    = Inr ((h', v'), ptr_add (begin_it v') p)"
    using e unfolding ln by (simp add: insert_range_def Let_def pd begin_it_def)
  have "n = 0 \<longrightarrow> h' = h \<and> v' = v \<and> ptr_add (begin_it v') p = ptr_add (begin_it v) p"
    using nop fit by simp
  then show ?thesis
    using ins ct sz inv' unfolding ln by blast
qed

theorem insert_range_result_witness:
  "storage_inv 4 0
     \<lparr>mem = [StaticMem 0 \<mapsto> [Some (10::nat), Some 20, None, None],
             ClientArray 0 \<mapsto> [Some 1, Some 2, Some 3]], next_block = 0\<rparr>
     \<lparr>m_data = (StaticMem 0, 0), m_size = 2, m_capacity = 4\<rparr>
   \<and> allocated
     \<lparr>mem = [StaticMem 0 \<mapsto> [Some (10::nat), Some 20, None, None],
             ClientArray 0 \<mapsto> [Some 1, Some 2, Some 3]], next_block = 0\<rparr>
     (ClientArray 0)
   \<and> (\<exists>h' v'. insert_range 4
          \<lparr>mem = [StaticMem 0 \<mapsto> [Some (10::nat), Some 20, None, None],
                  ClientArray 0 \<mapsto> [Some 1, Some 2, Some 3]], next_block = 0\<rparr>
          \<lparr>m_data = (StaticMem 0, 0), m_size = 2, m_capacity = 4\<rparr>
          (StaticMem 0, 0) (ClientArray 0, 0) (ClientArray 0, 3)
        = Inr ((h', v'), begin_it v')
      \<and> contents h' v' = [Some 1, Some 2, Some 3, Some 10, Some 20]
      \<and> m_size v' = 5)"
proof -
  let ?h = "\<lparr>mem = [StaticMem 0 \<mapsto> [Some (10::nat), Some 20, None, None],
             ClientArray 0 \<mapsto> [Some 1, Some 2, Some 3]], next_block = 0\<rparr>"
  let ?v = "\<lparr>m_data = (StaticMem 0, 0), m_size = 2, m_capacity = 4\<rparr>"
  have inv: "storage_inv 4 0 ?h ?v"
    by (simp add: storage_inv_def)
  have p: "0 \<le> m_size ?v"
    by simp
  have src: "mem ?h (ClientArray 0) = Some [Some 1, Some 2, Some 3]"
    and al: "allocated ?h (ClientArray 0)"
    and ln: "0 + 3 \<le> length [Some (1::nat), Some 2, Some 3]"
    and ne: "ClientArray 0 \<noteq> fst (m_data ?v)"
    by (simp_all add: allocated_def)
  from insert_range_result [OF inv p src al ln ne] obtain h' v' where
    e: "insert_range 4 ?h ?v (ptr_add (begin_it ?v) 0) (ClientArray 0, 0) (ClientArray 0, 0 + 3)
          = Inr ((h', v'), ptr_add (begin_it v') 0)"
    and c: "contents h' v'
          = take 0 (contents ?h ?v) @ take 3 (drop 0 [Some 1, Some 2, Some 3])
            @ drop 0 (contents ?h ?v)"
    and s: "m_size v' = m_size ?v + 3"
    by blast
  have e': "insert_range 4 ?h ?v (StaticMem 0, 0) (ClientArray 0, 0) (ClientArray 0, 3)
      = Inr ((h', v'), begin_it v')"
    using e by (simp add: begin_it_def ptr_add_def)
  have c': "contents h' v' = [Some 1, Some 2, Some 3, Some 10, Some 20]"
    using c by (simp add: contents_def)
  have s': "m_size v' = 5"
    using s by simp
  show ?thesis
    using inv al e' c' s' by blast
qed

subsection \<open>Sequences of push_back\<close>

lemma contents_length:
  assumes "storage_inv N this h v"
  shows "length (contents h v) = m_size v"
proof -
  from assms obtain r c where "m_data v = (r, 0)" "mem h r = Some c"
    "length c = m_capacity v" "m_size v \<le> m_capacity v"
    by (rule storage_inv_data)
  then show ?thesis
    by (simp add: contents_def)
qed

lemma push_back_container_inv:
  assumes inv: "container_inv N this h v"
  shows "\<exists>h' v'. push_back N h v x = Inr (h', v')
         \<and> container_inv N this h' v'
         \<and> m_size v' = Suc (m_size v)
         \<and> contents h' v' = contents h v @ [Some x]"
proof -
  have si: "storage_inv N this h v"
    and big: "\<not> inline_mode this v \<longrightarrow> N < m_size v"
    using inv by (simp_all add: container_inv_def)
  let ?f = "\<lambda>h' v'. store h' (ptr_add (m_data v') (m_size v')) (Some x)"
  have f: "?f h1 v1 = Inr (h1\<lparr>mem := (mem h1)(r1 \<mapsto> take (m_size v) c1 @ [Some x]
                                @ drop (m_size v + length [Some x]) c1)\<rparr>)"
    if "m_data v1 = (r1, 0)" "m_size v1 = m_size v" "mem h1 r1 = Some c1"
      "m_size v + length [Some x] \<le> length c1"
    for h1 :: "'a memory" and v1 r1 c1
    using store_cells [OF that(3,4)] that(1,2) by (simp add: ptr_add_def)
  from pushAt_storage_inv [where f = ?f and ys = "[Some x]", OF si le_refl f] obtain h' v' where
    e: "pushAt N h v (ptr_add (m_data v) (m_size v)) (length [Some x]) ?f = Inr (h', v')"
    and si': "storage_inv N this h' v'"
    and sz: "m_size v' = m_size v + length [Some x]"
    and ct: "contents h' v'
          = take (m_size v) (contents h v) @ [Some x] @ drop (m_size v) (contents h v)"
    and same: "m_size v + length [Some x] \<le> m_capacity v \<longrightarrow> m_data v' = m_data v"
    by blast
  have pb: "push_back N h v x = Inr (h', v')"
    using e by (simp add: push_back_def cend_def)
  have sz': "m_size v' = Suc (m_size v)"
    using sz by simp
  have ct': "contents h' v' = contents h v @ [Some x]"
    using ct contents_length [OF si] by simp
  have big': "\<not> inline_mode this v' \<longrightarrow> N < m_size v'"
  proof (cases "m_size v + length [Some x] \<le> m_capacity v")
    case True
    with same have "m_data v' = m_data v"
      by simp
    then show ?thesis
      using big sz' by (auto simp: inline_mode_def)
  next
    case False
    moreover have "N \<le> m_capacity v"
      using si by (cases rule: storage_inv_cases) simp_all
    ultimately show ?thesis
      using sz' by simp
  qed
  show ?thesis
    using pb si' big' sz' ct' by (simp add: container_inv_def)
qed

lemma push_back_seq_container_inv:
  "container_inv N this h v \<Longrightarrow>
   \<exists>h' v'. push_back_seq N (h, v) xs = Inr (h', v')
     \<and> container_inv N this h' v'
     \<and> m_size v' = m_size v + length xs
     \<and> contents h' v' = contents h v @ map Some xs"
proof (induction xs arbitrary: h v)
  case Nil
  then show ?case by simp
next
  case (Cons x xs)
  from push_back_container_inv [OF Cons.prems, of x] obtain h1 v1 where
    pb: "push_back N h v x = Inr (h1, v1)"
    and inv1: "container_inv N this h1 v1"
    and sz1: "m_size v1 = Suc (m_size v)"
    and ct1: "contents h1 v1 = contents h v @ [Some x]"
    by blast
  from Cons.IH [OF inv1] obtain h' v' where
    sq: "push_back_seq N (h1, v1) xs = Inr (h', v')"
    and inv': "container_inv N this h' v'"
    and sz': "m_size v' = m_size v1 + length xs"
    and ct': "contents h' v' = contents h1 v1 @ map Some xs"
    by blast
  have "push_back_seq N (h, v) (x # xs) = Inr (h', v')"
    using pb sq by simp
  then show ?case
    using inv' sz' ct' sz1 ct1 by simp
qed

lemma VLVector_default_inv:
  "VLVector_default N this h = (h0, v0) \<Longrightarrow>
   container_inv N this h0 v0 \<and> m_size v0 = 0 \<and> contents h0 v0 = []"
  by (auto simp: VLVector_default_def container_inv_def storage_inv_def inline_mode_def
        contents_def)

text \<open>
  Claim C6. For every sequence of \<open>push_back\<close> calls on a default-constructed container:
  every call succeeds and the container holds the pushed values in order; after \<open>n\<close>
  pushes with \<open>n \<le> StaticCapacity\<close> the capacity is \<open>StaticCapacity\<close> and the storage is
  the inline array; after \<open>n > StaticCapacity\<close> pushes the capacity is at least \<open>n\<close> and
  the storage is a live heap block, not the inline array.
\<close>

theorem push_back_sequence_storage:
  "\<exists>h' v'. push_back_seq N (VLVector_default N this h) xs = Inr (h', v')
     \<and> m_size v' = length xs
     \<and> contents h' v' = map Some xs
     \<and> (length xs \<le> N \<longrightarrow> m_capacity v' = N \<and> inline_mode this v')
     \<and> (N < length xs \<longrightarrow>
          length xs \<le> m_capacity v' \<and> heap_mode h' v' \<and> \<not> inline_mode this v')"
proof -
  obtain h0 v0 where d: "VLVector_default N this h = (h0, v0)"
    by (cases "VLVector_default N this h")
  from VLVector_default_inv [OF d] have inv0: "container_inv N this h0 v0"
    and sz0: "m_size v0 = 0" and ct0: "contents h0 v0 = []"
    by simp_all
  from push_back_seq_container_inv [OF inv0, of xs] obtain h' v' where
    sq: "push_back_seq N (h0, v0) xs = Inr (h', v')"
    and inv': "container_inv N this h' v'"
    and sz1: "m_size v' = m_size v0 + length xs"
    and ct1: "contents h' v' = contents h0 v0 @ map Some xs"
    by blast
  have sz': "m_size v' = length xs" and ct': "contents h' v' = map Some xs"
    using sz1 ct1 sz0 ct0 by simp_all
  have si': "storage_inv N this h' v'"
    and big': "\<not> inline_mode this v' \<longrightarrow> N < m_size v'"
    using inv' by (simp_all add: container_inv_def)
  have a: "length xs \<le> N \<longrightarrow> m_capacity v' = N \<and> inline_mode this v'"
    using si'
  proof (cases rule: storage_inv_cases)
    case (inline c0)
    then show ?thesis by (simp add: inline_mode_def)
  next
    case (heap c0 b c)
    then have "N < length xs"
      using big' sz' by (simp add: inline_mode_def)
    then show ?thesis by simp
  qed
  have b: "N < length xs \<longrightarrow>
      length xs \<le> m_capacity v' \<and> heap_mode h' v' \<and> \<not> inline_mode this v'"
    using si'
  proof (cases rule: storage_inv_cases)
    case (inline c0)
    then show ?thesis using sz' by simp
  next
    case (heap c0 b c)
    then show ?thesis using sz' by (simp add: inline_mode_def heap_mode_def)
  qed
  show ?thesis
    unfolding d using sq sz' ct' a b by blast
qed

theorem push_back_sequence_storage_witness:
  "(\<exists>h' v'. push_back_seq 4 (VLVector_default 4 0 \<lparr>mem = Map.empty, next_block = 0\<rparr>)
        [1::nat, 2, 3, 4] = Inr (h', v')
      \<and> m_capacity v' = 4 \<and> inline_mode 0 v' \<and> contents h' v' = [Some 1, Some 2, Some 3, Some 4])
   \<and> (\<exists>h' v'. push_back_seq 4 (VLVector_default 4 0 \<lparr>mem = Map.empty, next_block = 0\<rparr>)
        [1::nat, 2, 3, 4, 5] = Inr (h', v')
      \<and> 5 \<le> m_capacity v' \<and> heap_mode h' v' \<and> \<not> inline_mode 0 v'
      \<and> contents h' v' = [Some 1, Some 2, Some 3, Some 4, Some 5])"
proof -
  let ?h = "\<lparr>mem = Map.empty, next_block = 0\<rparr> :: nat memory"
  from push_back_sequence_storage [of 4 0 ?h "[1, 2, 3, 4]"] obtain h1 v1 where
    a: "push_back_seq 4 (VLVector_default 4 0 ?h) [1, 2, 3, 4] = Inr (h1, v1)"
    and a1: "contents h1 v1 = map Some [1, 2, 3, 4]"
    and a2: "length [1::nat, 2, 3, 4] \<le> 4 \<longrightarrow> m_capacity v1 = 4 \<and> inline_mode 0 v1"
    by blast
  from push_back_sequence_storage [of 4 0 ?h "[1, 2, 3, 4, 5]"] obtain h2 v2 where
    b: "push_back_seq 4 (VLVector_default 4 0 ?h) [1, 2, 3, 4, 5] = Inr (h2, v2)"
    and b1: "contents h2 v2 = map Some [1, 2, 3, 4, 5]"
    and b2: "4 < length [1::nat, 2, 3, 4, 5] \<longrightarrow>
      length [1::nat, 2, 3, 4, 5] \<le> m_capacity v2 \<and> heap_mode h2 v2 \<and> \<not> inline_mode 0 v2"
    by blast
  have a3: "m_capacity v1 = 4 \<and> inline_mode 0 v1"
    and a4: "contents h1 v1 = [Some 1, Some 2, Some 3, Some 4]"
    using a1 a2 by simp_all
  have b3: "5 \<le> m_capacity v2 \<and> heap_mode h2 v2 \<and> \<not> inline_mode 0 v2"
    and b4: "contents h2 v2 = [Some 1, Some 2, Some 3, Some 4, Some 5]"
    using b1 b2 by simp_all
  show ?thesis
    using a a3 a4 b b3 b4 by blast
qed

subsection \<open>The effect of each member operation\<close>

lemma ptr_diff_Inr_D: "ptr_diff p q = Inr n \<Longrightarrow> fst p = fst q \<and> snd q \<le> snd p \<and> n = snd p - snd q"
  by (auto simp: ptr_diff_def split: if_splits)

lemma std_copy_Inr_D: "std_copy h a b d = Inr h' \<Longrightarrow> fst b = fst a \<and> snd a \<le> snd b"
  by (auto simp: std_copy_def split: sum.splits dest: ptr_diff_Inr_D)

lemma std_copy_backward_Inr_D:
  "std_copy_backward h a b d = Inr h' \<Longrightarrow> fst b = fst a \<and> snd a \<le> snd b"
  by (auto simp: std_copy_backward_def split: sum.splits dest: ptr_diff_Inr_D)

lemma store_dead: "mem h (fst p) = None \<Longrightarrow> store h p x = Inl InvalidPointer"
  by (simp add: store_def)

lemma copy_loop_dead:
  "mem h (fst d) = None \<Longrightarrow> copy_loop h s d (Suc n) \<noteq> Inr h'"
  by (simp add: store_dead split: sum.splits)

lemma dangling_empty_cases:
  assumes "dangling_empty N this h v"
  obtains c0 b where "mem h (StaticMem this) = Some c0" "length c0 = N"
    "m_data v = (HeapBlock b, 0)" "b < next_block h" "mem h (HeapBlock b) = None"
    "m_size v = 0" "m_capacity v = N"
  using assms unfolding dangling_empty_def
  by (auto split: option.splits prod.splits region.splits)

lemma obj_inv_data:
  assumes "obj_inv N this h v"
  obtains r c0 where "m_data v = (r, 0)" "mem h (StaticMem this) = Some c0" "length c0 = N"
    "r = StaticMem this \<or> (\<exists>b. r = HeapBlock b \<and> b < next_block h)"
    "N \<le> m_capacity v"
proof -
  from assms consider "storage_inv N this h v" | "dangling_empty N this h v"
    by (auto simp: obj_inv_def container_inv_def)
  then show ?thesis
  proof cases
    case 1
    then show ?thesis
      by (cases rule: storage_inv_cases) (auto intro: that)
  next
    case 2
    then show ?thesis
      by (cases rule: dangling_empty_cases) (auto intro: that)
  qed
qed

lemma dangling_empty_D:
  "dangling_empty N this h v \<Longrightarrow>
   m_capacity v = N \<and> m_size v = 0
   \<and> (\<exists>b. m_data v = (HeapBlock b, 0) \<and> b < next_block h \<and> mem h (HeapBlock b) = None)"
  by (erule dangling_empty_cases) simp

lemma obj_inv_cases [consumes 1, case_names container dangling]:
  assumes "obj_inv N this h v"
  obtains "storage_inv N this h v" "\<not> inline_mode this v \<longrightarrow> N < m_size v"
  | "dangling_empty N this h v"
  using assms by (auto simp: obj_inv_def container_inv_def)

lemma member_effect_refl: "obj_inv N this h v \<Longrightarrow> member_effect N this h v h v"
  by (simp add: member_effect_def)

lemma erase_Inr_D:
  assumes e: "erase N this h v first lastp = Inr res" and d: "m_data v = (r, 0)"
  shows "\<exists>i j. first = (r, i) \<and> lastp = (r, j) \<and> i \<le> j \<and> j \<le> m_size v"
proof -
  from e obtain n where n: "ptr_diff lastp first = Inr n"
    by (auto simp: erase_def shrinks_to_inline_def Let_def split: sum.splits)
  from e obtain k where k: "ptr_diff first (begin_it v) = Inr k"
    by (auto simp: erase_def shrinks_to_inline_def Let_def split: sum.splits)
  have c: "fst (cend v) = fst lastp \<and> snd lastp \<le> snd (cend v)"
    using e unfolding erase_def shrinks_to_inline_def Let_def n k
    by (auto split: sum.splits if_splits prod.splits dest: std_copy_Inr_D)
  have "first = (r, snd first)" "lastp = (r, snd lastp)"
    using ptr_diff_Inr_D [OF n] ptr_diff_Inr_D [OF k] d
    by (simp_all add: begin_it_def prod_eq_iff)
  moreover have "snd first \<le> snd lastp" "snd lastp \<le> m_size v"
    using ptr_diff_Inr_D [OF n] c d by (simp_all add: cend_def ptr_add_def)
  ultimately show ?thesis
    by blast
qed

lemma erase_effect:
  assumes inv: "obj_inv N this h v"
    and e: "erase N this h v first lastp = Inr ((h', v'), it)"
  shows "member_effect N this h v h' v'"
proof -
  from inv obtain r c0 where d: "m_data v = (r, 0)"
    by (rule obj_inv_data)
  from erase_Inr_D [OF e d] obtain i j where
    p: "first = (r, i)" "lastp = (r, j)" and ij: "i \<le> j" "j \<le> m_size v"
    by blast
  have pp: "first = ptr_add (begin_it v) i" "lastp = ptr_add (begin_it v) j"
    using p d by (simp_all add: ptr_add_def begin_it_def)
  from inv consider "container_inv N this h v" | "dangling_empty N this h v"
    by (auto simp: obj_inv_def)
  then show ?thesis
  proof cases
    case 1
    then have si: "storage_inv N this h v"
      and big: "\<not> inline_mode this v \<longrightarrow> N < m_size v"
      by (simp_all add: container_inv_def)
    from erase_storage_inv [OF si ij] e obtain
      si': "storage_inv N this h' v'"
      and sz: "m_size v' = m_size v - (j - i)"
      and nb: "next_block h' = next_block h"
      and sh: "N < m_capacity v \<and> m_size v - (j - i) \<le> N \<longrightarrow>
              m_data v' = (StaticMem this, 0)
              \<and> (\<forall>r. r \<noteq> StaticMem this \<and> r \<noteq> fst (m_data v) \<longrightarrow> mem h' r = mem h r)"
      and ns: "\<not> (N < m_capacity v \<and> m_size v - (j - i) \<le> N) \<longrightarrow>
              m_data v' = m_data v
              \<and> (\<forall>r. r \<noteq> fst (m_data v) \<longrightarrow> mem h' r = mem h r)"
      unfolding pp by auto
    have big': "\<not> inline_mode this v' \<longrightarrow> N < m_size v'"
    proof (cases "N < m_capacity v \<and> m_size v - (j - i) \<le> N")
      case True
      with sh show ?thesis by (simp add: inline_mode_def)
    next
      case False
      with ns have same: "m_data v' = m_data v"
        by simp
      show ?thesis
        using si
      proof (cases rule: storage_inv_cases)
        case (inline c1)
        with same show ?thesis by (simp add: inline_mode_def)
      next
        case (heap c1 b c)
        with False sz show ?thesis by simp
      qed
    qed
    have fr: "\<forall>r. r \<noteq> StaticMem this \<and> r \<noteq> fst (m_data v) \<longrightarrow> mem h' r = mem h r"
      using sh ns by blast
    have dr: "fst (m_data v') = StaticMem this \<or> fst (m_data v') = fst (m_data v)"
      using sh ns by (cases "N < m_capacity v \<and> m_size v - (j - i) \<le> N") simp_all
    show ?thesis
      using si' big' nb fr dr by (auto simp: member_effect_def obj_inv_def container_inv_def)
  next
    case 2
    then have z: "m_size v = 0" "m_capacity v = N"
      by (auto elim: dangling_empty_cases)
    with ij have i0: "i = m_size v" "j = i"
      by simp_all
    have "erase N this h v (r, i) (r, i) = Inr ((h, v), (r, i))"
      using d z i0 by (intro erase_empty_range) simp_all
    with e p i0 have "h' = h" "v' = v"
      by simp_all
    then show ?thesis
      using inv by (simp add: member_effect_refl)
  qed
qed

lemma writes_region_refl: "writes_region h r h"
  by (simp add: writes_region_def)

lemma writes_region_trans:
  "writes_region h r h1 \<Longrightarrow> writes_region h1 r h2 \<Longrightarrow> writes_region h r h2"
  by (simp add: writes_region_def)

lemma writes_region_dead: "writes_region h r h' \<Longrightarrow> mem h r = None \<Longrightarrow> mem h' r = None"
  by (simp add: writes_region_def)

lemma writes_region_live:
  "writes_region h r h' \<Longrightarrow> mem h r = Some c \<Longrightarrow> \<exists>c'. mem h' r = Some c' \<and> length c' = length c"
  by (auto simp: writes_region_def)

lemma writes_region_other: "writes_region h r h' \<Longrightarrow> r' \<noteq> r \<Longrightarrow> mem h' r' = mem h r'"
  by (simp add: writes_region_def)

lemma writes_region_shape:
  "writes_region h r h' \<Longrightarrow> mem h r' = Some c \<Longrightarrow>
   \<exists>c'. mem h' r' = Some c' \<and> length c' = length c"
  by (cases "r' = r") (auto simp: writes_region_def)

lemma store_writes:
  assumes "store h p x = Inr h'"
  shows "writes_region h (fst p) h' \<and> mem h (fst p) \<noteq> None"
  using assms by (auto simp: store_def writes_region_def split: option.splits if_splits)

lemma copy_loop_writes:
  "copy_loop h s d n = Inr h' \<Longrightarrow>
   writes_region h (fst d) h' \<and> (0 < n \<longrightarrow> mem h (fst d) \<noteq> None)"
proof (induction n arbitrary: h s d)
  case 0
  then show ?case by (simp add: writes_region_refl)
next
  case (Suc n)
  from Suc.prems obtain x h1 where st: "store h d x = Inr h1"
    and rest: "copy_loop h1 (ptr_add s 1) (ptr_add d 1) n = Inr h'"
    by (auto split: sum.splits)
  have "writes_region h1 (fst (ptr_add d 1)) h'"
    using Suc.IH [OF rest] by simp
  then have "writes_region h1 (fst d) h'"
    by (simp add: ptr_add_def)
  with store_writes [OF st] show ?case
    by (auto intro: writes_region_trans)
qed

lemma std_copy_writes:
  assumes "std_copy h a b d = Inr h'" and "ptr_diff b a = Inr n"
  shows "writes_region h (fst d) h' \<and> (0 < n \<longrightarrow> mem h (fst d) \<noteq> None)"
proof -
  have "copy_loop h a d n = Inr h'"
    using assms by (simp add: std_copy_def)
  then show ?thesis
    by (rule copy_loop_writes)
qed

lemma std_copy_writes_region: "std_copy h a b d = Inr h' \<Longrightarrow> writes_region h (fst d) h'"
  by (auto simp: std_copy_def split: sum.splits dest: copy_loop_writes)

lemma copy_backward_loop_writes:
  "copy_backward_loop h s d n = Inr h' \<Longrightarrow> writes_region h (fst d) h'"
proof (induction n arbitrary: h s d)
  case 0
  then show ?case by (simp add: writes_region_refl)
next
  case (Suc n)
  from Suc.prems obtain x h1 where st: "store h (fst d, snd d - 1) x = Inr h1"
    and rest: "copy_backward_loop h1 (fst s, snd s - 1) (fst d, snd d - 1) n = Inr h'"
    by (auto split: sum.splits if_splits)
  have "writes_region h1 (fst d) h'"
    using Suc.IH [OF rest] by simp
  moreover have "writes_region h (fst d) h1"
    using store_writes [OF st] by simp
  ultimately show ?case
    by (rule writes_region_trans [rotated])
qed

lemma std_copy_backward_writes:
  "std_copy_backward h a b d = Inr h' \<Longrightarrow> writes_region h (fst d) h'"
  by (auto simp: std_copy_backward_def split: sum.splits dest: copy_backward_loop_writes)

lemma storage_inv_writes:
  assumes inv: "storage_inv N this h v" and w: "writes_region h (fst (m_data v)) h'"
    and n: "n \<le> m_capacity v"
  shows "storage_inv N this h' (v\<lparr>m_size := n\<rparr>)"
  using inv
proof (cases rule: storage_inv_cases)
  case (inline c0)
  from writes_region_shape [OF w inline(1)] obtain c' where
    "mem h' (StaticMem this) = Some c'" "length c' = length c0"
    by blast
  then show ?thesis
    using inline n by (simp add: storage_inv_def)
next
  case (heap c0 b c)
  from writes_region_shape [OF w heap(1)] obtain c0' where
    s: "mem h' (StaticMem this) = Some c0'" "length c0' = length c0"
    by blast
  from writes_region_shape [OF w heap(5)] obtain c' where
    c: "mem h' (HeapBlock b) = Some c'" "length c' = length c"
    by blast
  have "next_block h' = next_block h"
    using w by (simp add: writes_region_def)
  then show ?thesis
    using heap s c n by (simp add: storage_inv_def)
qed

lemma pushAt_cases:
  assumes e: "pushAt N h v pos n f = Inr (h', v')"
  obtains
    (in_place) h3 where "\<not> m_capacity v < m_size v + n"
      "std_copy_backward h pos (end_it v) (ptr_add (end_it v) n) = Inr h3"
      "f h3 v = Inr h'" "v' = v\<lparr>m_size := m_size v + n\<rparr>"
  | (realloc) h2 h3 h4 where "m_capacity v < m_size v + n"
      "std_copy (h\<lparr>mem := (mem h)(HeapBlock (next_block h) \<mapsto> replicate (cap N v n) None),
                   next_block := Suc (next_block h)\<rparr>)
         (m_data v) pos (HeapBlock (next_block h), 0) = Inr h2"
      "std_copy_backward h2 pos (end_it v)
         (ptr_add (end_it (v\<lparr>m_capacity := cap N v n, m_data := (HeapBlock (next_block h), 0)\<rparr>)) n)
       = Inr h3"
      "f h3 (v\<lparr>m_capacity := cap N v n, m_data := (HeapBlock (next_block h), 0)\<rparr>) = Inr h4"
      "delete_array h4 (if m_capacity v \<le> N then None else Some (m_data v)) = Inr h'"
      "v' = v\<lparr>m_capacity := cap N v n, m_data := (HeapBlock (next_block h), 0),
                m_size := m_size v + n\<rparr>"
proof (cases "m_capacity v < m_size v + n")
  case False
  with e show ?thesis
    by (auto simp: pushAt_def Let_def delete_array_def split: sum.splits intro: in_place)
next
  case True
  with e show ?thesis
    by (auto simp: pushAt_def Let_def new_array_def cbegin_def
          split: sum.splits intro: realloc)
qed

lemma pushAt_effect:
  assumes inv: "obj_inv N this h v"
    and f: "\<And>h1 v1 h2. f h1 v1 = Inr h2 \<Longrightarrow>
              writes_region h1 (fst (m_data v1)) h2
              \<and> (0 < n \<longrightarrow> mem h1 (fst (m_data v1)) \<noteq> None)"
    and e: "pushAt N h v pos n f = Inr (h', v')"
  shows "member_effect N this h v h' v'"
proof -
  from inv obtain r c0 where d: "m_data v = (r, 0)"
    and st: "mem h (StaticMem this) = Some c0" "length c0 = N"
    and rr: "r = StaticMem this \<or> (\<exists>b. r = HeapBlock b \<and> b < next_block h)"
    and capN: "N \<le> m_capacity v"
    by (rule obj_inv_data)
  from e show ?thesis
  proof (cases rule: pushAt_cases)
    case (in_place h3)
    have w1: "writes_region h r h3"
      using std_copy_backward_writes [OF in_place(2)] d by (simp add: end_it_def ptr_add_def)
    have w2: "writes_region h3 r h'" and live: "0 < n \<longrightarrow> mem h3 r \<noteq> None"
      using f [OF in_place(3)] d by simp_all
    have w: "writes_region h r h'"
      using w1 w2 by (rule writes_region_trans)
    have nb: "next_block h' = next_block h"
      and fr: "\<forall>r'. r' \<noteq> r \<longrightarrow> mem h' r' = mem h r'"
      using w by (simp_all add: writes_region_def)
    have dv: "m_data v' = m_data v"
      using in_place(4) by simp
    have "obj_inv N this h' v'"
      using inv
    proof (cases rule: obj_inv_cases)
      case container
      have "storage_inv N this h' (v\<lparr>m_size := m_size v + n\<rparr>)"
        using container(1) _ _
      proof (rule storage_inv_writes)
        show "writes_region h (fst (m_data v)) h'"
          using w d by simp
        show "m_size v + n \<le> m_capacity v"
          using in_place(1) by simp
      qed
      moreover have "\<not> inline_mode this v' \<longrightarrow> N < m_size v'"
        using container(2) in_place(4) by (auto simp: inline_mode_def)
      ultimately show ?thesis
        unfolding in_place(4) [symmetric] by (simp add: obj_inv_def container_inv_def)
    next
      case dangling
      from dangling_empty_D [OF dangling] obtain b where
        z: "m_capacity v = N" "m_size v = 0"
        and b: "m_data v = (HeapBlock b, 0)" "b < next_block h" "mem h (HeapBlock b) = None"
        by blast
      have rb: "r = HeapBlock b"
        using d b(1) by simp
      have "mem h3 r = None"
        using w1 b(3) unfolding rb by (rule writes_region_dead)
      with live have n0: "n = 0"
        by simp
      have v': "v' = v"
        using in_place(4) n0 by simp
      have "mem h' (HeapBlock b) = None"
        using w b(3) unfolding rb by (rule writes_region_dead)
      moreover have "mem h' (StaticMem this) = Some c0"
        using fr st(1) rb by simp
      ultimately have "dangling_empty N this h' v"
        using st(2) b z nb by (simp add: dangling_empty_def)
      then show ?thesis
        unfolding v' by (simp add: obj_inv_def)
    qed
    then show ?thesis
      using nb fr dv d by (simp add: member_effect_def)
  next
    case (realloc h2 h3 h4)
    let ?nb = "HeapBlock (next_block h)"
    let ?K = "cap N v n"
    let ?h0 = "h\<lparr>mem := (mem h)(?nb \<mapsto> replicate ?K None), next_block := Suc (next_block h)\<rparr>"
    have big: "N < m_size v + n"
      using realloc(1) capN by simp
    have K: "m_size v + n \<le> ?K"
      using big by (rule cap_ge)
    have w1: "writes_region ?h0 ?nb h2"
      using std_copy_writes_region [OF realloc(2)] by simp
    have w2: "writes_region h2 ?nb h3"
      using std_copy_backward_writes [OF realloc(3)] by (simp add: end_it_def ptr_add_def)
    have w3: "writes_region h3 ?nb h4"
      using f [OF realloc(4)] by simp
    have w: "writes_region ?h0 ?nb h4"
      using w1 w2 w3 by (blast intro: writes_region_trans)
    have nb4: "next_block h4 = Suc (next_block h)"
      and fr4: "\<forall>r'. r' \<noteq> ?nb \<longrightarrow> mem h4 r' = mem h r'"
      using w by (simp_all add: writes_region_def)
    from writes_region_live [OF w, of "replicate ?K None"] obtain c4 where
      c4: "mem h4 ?nb = Some c4" "length c4 = ?K"
      by auto
    have rnb: "r \<noteq> ?nb"
      using rr by auto
    have del: "next_block h' = Suc (next_block h) \<and> mem h' ?nb = Some c4
        \<and> mem h' (StaticMem this) = Some c0
        \<and> (\<forall>r'. r' \<noteq> ?nb \<and> r' \<noteq> r \<longrightarrow> mem h' r' = mem h r')"
    proof (cases "m_capacity v \<le> N")
      case True
      with realloc(5) have "h' = h4"
        by (simp add: delete_array_def)
      then show ?thesis
        using nb4 c4 fr4 st(1) by simp
    next
      case False
      with realloc(5) d have dl: "delete_array h4 (Some (r, 0)) = Inr h'"
        by simp
      then obtain b where b: "r = HeapBlock b" and h': "h' = h4\<lparr>mem := (mem h4)(HeapBlock b := None)\<rparr>"
        by (cases r) (auto simp: delete_array_def split: if_splits)
      show ?thesis
        unfolding h' using nb4 c4 fr4 st(1) rnb b by simp
    qed
    have si: "storage_inv N this h' v'"
      unfolding realloc(6) using del st(2) c4(2) K big by (simp add: storage_inv_def)
    have "obj_inv N this h' v'"
      using si big unfolding realloc(6) by (simp add: obj_inv_def container_inv_def)
    moreover have "\<forall>r'. r' \<noteq> StaticMem this \<and> r' \<noteq> fst (m_data v)
        \<and> (\<forall>b. r' = HeapBlock b \<longrightarrow> b < next_block h) \<longrightarrow> mem h' r' = mem h r'"
      using del d by auto
    ultimately show ?thesis
      using del unfolding realloc(6) by (simp add: member_effect_def)
  qed
qed

lemma insert_range_effect:
  assumes inv: "obj_inv N this h v"
    and e: "insert_range N h v pos first lastp = Inr ((h', v'), it)"
  shows "member_effect N this h v h' v'"
proof -
  from e obtain n idx where n: "ptr_diff lastp first = Inr n"
    and pa: "pushAt N h v pos n
      (\<lambda>h' v'. std_copy h' first lastp (ptr_add (m_data v') idx)) = Inr (h', v')"
    by (auto simp: insert_range_def Let_def split: sum.splits)
  from inv _ pa show ?thesis
  proof (rule pushAt_effect)
    fix h1 :: "'a memory" and v1 h2
    assume "std_copy h1 first lastp (ptr_add (m_data v1) idx) = Inr h2"
    from std_copy_writes [OF this n]
    show "writes_region h1 (fst (m_data v1)) h2 \<and> (0 < n \<longrightarrow> mem h1 (fst (m_data v1)) \<noteq> None)"
      by (simp add: ptr_add_def)
  qed
qed

lemma insert_value_effect:
  assumes inv: "obj_inv N this h v"
    and e: "insert_value N h v pos x = Inr ((h', v'), it)"
  shows "member_effect N this h v h' v'"
proof -
  from e obtain idx where
    pa: "pushAt N h v pos 1
      (\<lambda>h' v'. store h' (ptr_add (m_data v') idx) (Some x)) = Inr (h', v')"
    by (auto simp: insert_value_def split: sum.splits)
  from inv _ pa show ?thesis
  proof (rule pushAt_effect)
    fix h1 :: "'a memory" and v1 h2
    assume "store h1 (ptr_add (m_data v1) idx) (Some x) = Inr h2"
    from store_writes [OF this]
    show "writes_region h1 (fst (m_data v1)) h2 \<and> (0 < (1::nat) \<longrightarrow> mem h1 (fst (m_data v1)) \<noteq> None)"
      by (simp add: ptr_add_def)
  qed
qed

lemma push_back_effect:
  assumes inv: "obj_inv N this h v"
    and e: "push_back N h v x = Inr (h', v')"
  shows "member_effect N this h v h' v'"
proof -
  have pa: "pushAt N h v (cend v) 1
      (\<lambda>h' v'. store h' (ptr_add (m_data v') (m_size v')) (Some x)) = Inr (h', v')"
    using e by (simp add: push_back_def)
  from inv _ pa show ?thesis
  proof (rule pushAt_effect)
    fix h1 :: "'a memory" and v1 h2
    assume "store h1 (ptr_add (m_data v1) (m_size v1)) (Some x) = Inr h2"
    from store_writes [OF this]
    show "writes_region h1 (fst (m_data v1)) h2 \<and> (0 < (1::nat) \<longrightarrow> mem h1 (fst (m_data v1)) \<noteq> None)"
      by (simp add: ptr_add_def)
  qed
qed

lemma obj_inv_frame:
  assumes inv: "obj_inv N a h v"
    and s: "mem h' (StaticMem a) = mem h (StaticMem a)"
    and r: "mem h' (fst (m_data v)) = mem h (fst (m_data v))"
    and n: "next_block h \<le> next_block h'"
  shows "obj_inv N a h' v"
proof -
  from inv consider "container_inv N a h v" | "dangling_empty N a h v"
    by (auto simp: obj_inv_def)
  then show ?thesis
  proof cases
    case 1
    then have si: "storage_inv N a h v" and big: "\<not> inline_mode a v \<longrightarrow> N < m_size v"
      by (simp_all add: container_inv_def)
    from si have "storage_inv N a h' v"
    proof (cases rule: storage_inv_cases)
      case (inline c0)
      then show ?thesis using s by (simp add: storage_inv_def)
    next
      case (heap c0 b c)
      then show ?thesis using s r n by (simp add: storage_inv_def)
    qed
    with big show ?thesis
      by (simp add: obj_inv_def container_inv_def)
  next
    case 2
    then have "dangling_empty N a h' v"
      using s r n by (cases rule: dangling_empty_cases) (simp add: dangling_empty_def)
    then show ?thesis
      by (simp add: obj_inv_def)
  qed
qed

lemma end_it_empty: "m_size u = 0 \<Longrightarrow> end_it u = begin_it u"
  by (simp add: end_it_def begin_it_def ptr_add_def)

lemma copyMembers_effect:
  assumes u: "obj_inv N other h u"
    and st: "mem h (StaticMem this) = Some c0" "length c0 = N"
    and d: "m_data v = (r, 0)"
    and tgt: "r = StaticMem this \<or> (\<exists>b. r = HeapBlock b \<and> b < next_block h \<and> mem h r = None)"
    and dist: "fst (m_data u) \<noteq> r" "fst (m_data u) \<noteq> StaticMem this"
    and e: "copyMembers N h v u = Inr (h', v')"
  shows "obj_inv N this h' v' \<and> next_block h \<le> next_block h'
    \<and> (\<forall>r'. r' \<noteq> StaticMem this \<and> (\<forall>b. r' = HeapBlock b \<longrightarrow> b < next_block h)
          \<longrightarrow> mem h' r' = mem h r')
    \<and> (fst (m_data v') = StaticMem this \<or> fst (m_data v') = r
        \<or> (\<exists>b. fst (m_data v') = HeapBlock b \<and> next_block h \<le> b))"
proof (cases "N < m_capacity u")
  case True
  with u have cu: "container_inv N other h u"
    by (auto simp: obj_inv_def elim: dangling_empty_cases)
  then have si: "storage_inv N other h u" and big: "\<not> inline_mode other u \<longrightarrow> N < m_size u"
    by (simp_all add: container_inv_def)
  from si True obtain b c where du: "m_data u = (HeapBlock b, 0)" "b < next_block h"
    "mem h (HeapBlock b) = Some c" "length c = m_capacity u" "m_size u \<le> m_capacity u"
    by (cases rule: storage_inv_cases) auto
  have bigu: "N < m_size u"
    using big du(1) by (simp add: inline_mode_def)
  let ?K = "m_capacity u"
  let ?nb = "HeapBlock (next_block h)"
  define h0 where
    "h0 = h\<lparr>mem := (mem h)(?nb \<mapsto> replicate ?K None), next_block := Suc (next_block h)\<rparr>"
  define h1 where "h1 = h0\<lparr>mem := (mem h0)(?nb \<mapsto> take (m_size u) c
     @ drop (m_size u) (replicate ?K None))\<rparr>"
  have na: "new_array h ?K = (h0, (?nb, 0))"
    by (simp add: new_array_def h0_def)
  have m0: "mem h0 (HeapBlock b) = Some c" "mem h0 ?nb = Some (replicate ?K None)"
    using du(2,3) by (simp_all add: h0_def)
  have ne: "HeapBlock b \<noteq> ?nb"
    using du(2) by simp
  have "std_copy h0 (HeapBlock b, 0) (HeapBlock b, m_size u) (?nb, 0)
    = Inr (h0\<lparr>mem := (mem h0)(?nb \<mapsto> take 0 (replicate ?K None)
        @ take (m_size u - 0) (drop 0 c) @ drop (0 + (m_size u - 0)) (replicate ?K None))\<rparr>)"
    using m0 ne du(4,5) by (intro std_copy_other) simp_all
  then have cp: "std_copy h0 (HeapBlock b, 0) (HeapBlock b, m_size u) (?nb, 0) = Inr h1"
    by (simp add: h1_def)
  have "copyMembers N h v u
    = Inr (h1, v\<lparr>m_data := (?nb, 0), m_capacity := ?K, m_size := m_size u\<rparr>)"
    by (simp add: copyMembers_def Let_def True na begin_it_def end_it_def ptr_add_def du(1) cp)
  with e have hv: "h' = h1" "v' = v\<lparr>m_data := (?nb, 0), m_capacity := ?K, m_size := m_size u\<rparr>"
    by simp_all
  have l: "length (take (m_size u) c @ drop (m_size u) (replicate ?K (None :: 'a option))) = ?K"
    using du(4,5) by simp
  have "storage_inv N this h1 (v\<lparr>m_data := (?nb, 0), m_capacity := ?K, m_size := m_size u\<rparr>)"
    using st True du(5) l unfolding h1_def h0_def storage_inv_def by simp
  then have "obj_inv N this h' v'"
    unfolding hv using bigu by (simp add: obj_inv_def container_inv_def)
  moreover have "next_block h \<le> next_block h'"
    unfolding hv by (simp add: h1_def h0_def)
  moreover have "\<forall>r'. r' \<noteq> StaticMem this \<and> (\<forall>b. r' = HeapBlock b \<longrightarrow> b < next_block h)
          \<longrightarrow> mem h' r' = mem h r'"
    unfolding hv by (auto simp: h1_def h0_def)
  moreover have "\<exists>b. fst (m_data v') = HeapBlock b \<and> next_block h \<le> b"
    unfolding hv by simp
  ultimately show ?thesis
    by blast
next
  case False
  from u obtain ru where du: "m_data u = (ru, 0)" "N \<le> m_capacity u"
    by (rule obj_inv_data)
  have capu: "m_capacity u = N"
    using du(2) False by simp
  have cm: "copyMembers N h v u
    = (case std_copy h (ru, 0) (ru, m_size u) (r, 0) of
         Inl e \<Rightarrow> Inl e
       | Inr h2 \<Rightarrow> Inr (h2, v\<lparr>m_capacity := N, m_size := m_size u\<rparr>))"
    by (simp add: copyMembers_def Let_def False begin_it_def end_it_def ptr_add_def du(1) d capu)
  from e obtain h2 where cp: "std_copy h (ru, 0) (ru, m_size u) (r, 0) = Inr h2"
    and hv: "h' = h2" "v' = v\<lparr>m_capacity := N, m_size := m_size u\<rparr>"
    unfolding cm by (auto split: sum.splits)
  have rr: "ru \<noteq> r"
    using dist du(1) by simp
  show ?thesis
  proof (cases "m_size u = 0")
    case True
    then have "h2 = h"
      using cp by (simp add: std_copy_empty)
    then have h': "h' = h"
      using hv by simp
    have "obj_inv N this h (v\<lparr>m_capacity := N, m_size := 0\<rparr>)"
      using tgt
    proof
      assume "r = StaticMem this"
      then show ?thesis
        using st d by (simp add: obj_inv_def container_inv_def storage_inv_def inline_mode_def)
    next
      assume "\<exists>b. r = HeapBlock b \<and> b < next_block h \<and> mem h r = None"
      then show ?thesis
        using st d by (auto simp: obj_inv_def dangling_empty_def)
    qed
    then show ?thesis
      unfolding h' hv(2) True using d by simp
  next
    case False
    then obtain k where k: "m_size u = Suc k"
      by (cases "m_size u") auto
    have live: "r = StaticMem this"
    proof (rule ccontr)
      assume "r \<noteq> StaticMem this"
      with tgt have "mem h (fst (r, 0 :: nat)) = None"
        by auto
      then have "copy_loop h (ru, 0) (r, 0) (Suc k) \<noteq> Inr h2"
        by (rule copy_loop_dead)
      then show False
        using cp k by (simp add: std_copy_def ptr_diff_def)
    qed
    from u False have cu: "container_inv N other h u"
      by (auto simp: obj_inv_def elim: dangling_empty_cases)
    then have si: "storage_inv N other h u"
      by (simp add: container_inv_def)
    from si capu obtain cs where su: "ru = StaticMem other" "mem h ru = Some cs"
      "length cs = N" "m_size u \<le> N"
      using du(1) by (cases rule: storage_inv_cases) auto
    have "std_copy h (ru, 0) (ru, m_size u) (StaticMem this, 0)
      = Inr (h\<lparr>mem := (mem h)(StaticMem this \<mapsto> take 0 c0 @ take (m_size u - 0) (drop 0 cs)
          @ drop (0 + (m_size u - 0)) c0)\<rparr>)"
      using su st rr live by (intro std_copy_other) simp_all
    with cp live have h2: "h2 = h\<lparr>mem := (mem h)(StaticMem this \<mapsto> take (m_size u) cs
          @ drop (m_size u) c0)\<rparr>"
      by simp
    have l: "length (take (m_size u) cs @ drop (m_size u) c0) = N"
      using su st by simp
    have "storage_inv N this h2 (v\<lparr>m_capacity := N, m_size := m_size u\<rparr>)"
      unfolding h2 storage_inv_def using l su(4) d live by simp
    then have "obj_inv N this h' v'"
      unfolding hv using d live by (simp add: obj_inv_def container_inv_def inline_mode_def)
    moreover have "next_block h \<le> next_block h'"
      unfolding hv h2 by simp
    moreover have "\<forall>r'. r' \<noteq> StaticMem this \<and> (\<forall>b. r' = HeapBlock b \<longrightarrow> b < next_block h)
          \<longrightarrow> mem h' r' = mem h r'"
      unfolding hv h2 by simp
    moreover have "fst (m_data v') = r"
      unfolding hv using d by simp
    ultimately show ?thesis
      by blast
  qed
qed

lemma operator_assign_effect:
  assumes v: "obj_inv N this h v" and u: "obj_inv N other h u"
    and dist: "other \<noteq> this \<longrightarrow> fst (m_data u) \<noteq> fst (m_data v)"
    and e: "operator_assign N this h v other u = Inr (h', v')"
  shows "member_effect N this h v h' v'"
proof (cases "other = this")
  case True
  with e have "h' = h" "v' = v"
    by (simp_all add: operator_assign_def)
  with v show ?thesis
    by (simp add: member_effect_refl)
next
  case False
  from v obtain r c0 where d: "m_data v = (r, 0)" "mem h (StaticMem this) = Some c0"
    "length c0 = N" "r = StaticMem this \<or> (\<exists>b. r = HeapBlock b \<and> b < next_block h)"
    by (rule obj_inv_data)
  from u obtain ru where du: "m_data u = (ru, 0)"
    "ru = StaticMem other \<or> (\<exists>b. ru = HeapBlock b \<and> b < next_block h)"
    by (rule obj_inv_data)
  have rr: "fst (m_data u) \<noteq> r" "fst (m_data u) \<noteq> StaticMem this"
    using dist False d(1) du by auto
  show ?thesis
  proof (cases "N < m_capacity v")
    case big: True
    from v have cv: "storage_inv N this h v"
    proof (cases rule: obj_inv_cases)
      case container
      then show ?thesis by simp
    next
      case dangling
      then show ?thesis using big dangling_empty_D [OF dangling] by simp
    qed
    from cv big obtain b c where dv: "m_data v = (HeapBlock b, 0)" "b < next_block h"
      "mem h (HeapBlock b) = Some c"
      by (cases rule: storage_inv_cases) auto
    have r: "r = HeapBlock b"
      using d(1) dv(1) by simp
    define h1 where "h1 = h\<lparr>mem := (mem h)(HeapBlock b := None)\<rparr>"
    have dl: "delete_array h (Some (m_data v)) = Inr h1"
      using dv by (simp add: delete_array_def h1_def)
    have cm: "copyMembers N h1 v u = Inr (h', v')"
      using e False big dl by (simp add: operator_assign_def)
    have u1: "obj_inv N other h1 u"
      using u
    proof (rule obj_inv_frame)
      show "mem h1 (StaticMem other) = mem h (StaticMem other)"
        by (simp add: h1_def)
      show "mem h1 (fst (m_data u)) = mem h (fst (m_data u))"
        using rr(1) r by (simp add: h1_def)
      show "next_block h \<le> next_block h1"
        by (simp add: h1_def)
    qed
    have st1: "mem h1 (StaticMem this) = Some c0"
      using d(2) by (simp add: h1_def)
    have tgt: "r = StaticMem this \<or> (\<exists>b. r = HeapBlock b \<and> b < next_block h1 \<and> mem h1 r = None)"
      using r dv(2) by (simp add: h1_def)
    from copyMembers_effect [OF u1 st1 d(3) d(1) tgt rr cm]
    have eff: "obj_inv N this h' v'" "next_block h1 \<le> next_block h'"
      "\<forall>r'. r' \<noteq> StaticMem this \<and> (\<forall>b. r' = HeapBlock b \<longrightarrow> b < next_block h1)
          \<longrightarrow> mem h' r' = mem h1 r'"
      "fst (m_data v') = StaticMem this \<or> fst (m_data v') = r
        \<or> (\<exists>b. fst (m_data v') = HeapBlock b \<and> next_block h1 \<le> b)"
      by blast+
    have nb: "next_block h1 = next_block h"
      by (simp add: h1_def)
    have fr: "\<forall>r'. r' \<noteq> StaticMem this \<and> r' \<noteq> fst (m_data v)
              \<and> (\<forall>b. r' = HeapBlock b \<longrightarrow> b < next_block h) \<longrightarrow> mem h' r' = mem h r'"
      using eff(3) dv(1) unfolding nb by (auto simp: h1_def)
    show ?thesis
      using eff(1,2,4) fr d(1) unfolding nb by (simp add: member_effect_def)
  next
    case small: False
    have cm: "copyMembers N h v u = Inr (h', v')"
      using e False small by (simp add: operator_assign_def)
    have tgt: "r = StaticMem this \<or> (\<exists>b. r = HeapBlock b \<and> b < next_block h \<and> mem h r = None)"
    proof (cases "r = StaticMem this")
      case True
      then show ?thesis by simp
    next
      case nst: False
      from v show ?thesis
      proof (cases rule: obj_inv_cases)
        case container
        from container(1) show ?thesis
        proof (cases rule: storage_inv_cases)
          case (inline c1)
          with d(1) nst show ?thesis by simp
        next
          case (heap c1 b c)
          with small show ?thesis by simp
        qed
      next
        case dangling
        then show ?thesis
          using dangling_empty_D [OF dangling] d(1) by auto
      qed
    qed
    from copyMembers_effect [OF u d(2) d(3) d(1) tgt rr cm]
    show ?thesis
      using d(1) by (simp add: member_effect_def)
  qed
qed

lemma erase_pos_effect:
  "obj_inv N this h v \<Longrightarrow> erase_pos N this h v pos = Inr ((h', v'), it) \<Longrightarrow>
   member_effect N this h v h' v'"
  unfolding erase_pos_def by (rule erase_effect)

lemma pop_back_effect:
  assumes "obj_inv N this h v" and "pop_back N this h v = Inr (h', v')"
  shows "member_effect N this h v h' v'"
proof -
  from assms(2) obtain it where
    "erase_pos N this h v (fst (cend v), snd (cend v) - 1) = Inr ((h', v'), it)"
    by (auto simp: pop_back_def split: if_splits sum.splits)
  with assms(1) show ?thesis
    by (rule erase_pos_effect)
qed

lemma clear_effect:
  assumes "obj_inv N this h v" and "clear N this h v = Inr (h', v')"
  shows "member_effect N this h v h' v'"
proof -
  from assms(2) obtain it where "erase N this h v (begin_it v) (end_it v) = Inr ((h', v'), it)"
    by (auto simp: clear_def split: sum.splits)
  with assms(1) show ?thesis
    by (rule erase_effect)
qed

lemma store_effect:
  assumes inv: "obj_inv N this h v" and d: "fst p = fst (m_data v)"
    and e: "store h p x = Inr h'"
  shows "member_effect N this h v h' v"
proof -
  from e obtain c where c: "mem h (fst p) = Some c" "snd p < length c"
    and h': "h' = h\<lparr>mem := (mem h)(fst p \<mapsto> c[snd p := x])\<rparr>"
    by (auto simp: store_def split: option.splits if_splits)
  from inv c(1) d have ci: "container_inv N this h v"
    by (auto simp: obj_inv_def elim!: dangling_empty_cases)
  then have si: "storage_inv N this h v" and big: "\<not> inline_mode this v \<longrightarrow> N < m_size v"
    by (simp_all add: container_inv_def)
  from si obtain r c1 where dv: "m_data v = (r, 0)" "mem h r = Some c1"
    "length c1 = m_capacity v" "m_size v \<le> m_capacity v"
    by (rule storage_inv_data)
  have r: "fst p = r" and cc: "c1 = c"
    using d dv c by simp_all
  have "storage_inv N this (h\<lparr>mem := (mem h)(r \<mapsto> c[snd p := x])\<rparr>) (v\<lparr>m_size := m_size v\<rparr>)"
    using si dv(1) _ dv(4) by (rule storage_inv_update_cells) (simp add: dv(3) cc [symmetric])
  then have "storage_inv N this h' v"
    unfolding h' r by simp
  then show ?thesis
    using big d unfolding h' by (simp add: member_effect_def obj_inv_def container_inv_def)
qed

lemma at_ref_write_effect:
  assumes inv: "obj_inv N this h v"
    and e: "(case at_ref h v i of
              ((h1, v1), Inl e) \<Rightarrow> Inl e
            | ((h1, v1), Inr p) \<Rightarrow>
                (case store h1 p (Some x) of Inl e \<Rightarrow> Inl e | Inr h2 \<Rightarrow> Inr (h2, v1)))
            = Inr (h', v')"
  shows "member_effect N this h v h' v'"
proof -
  from e have st: "store h (ptr_add (m_data v) i) (Some x) = Inr h'" and v': "v' = v"
    by (auto simp: at_ref_def split: if_splits sum.splits)
  have "fst (ptr_add (m_data v) i) = fst (m_data v)"
    by (simp add: ptr_add_def)
  with inv show ?thesis
    unfolding v' using st by (rule store_effect)
qed

lemma index_write_effect:
  assumes inv: "obj_inv N this h v"
    and e: "(case store h (operator_index v i) (Some x) of
              Inl e \<Rightarrow> Inl e | Inr h2 \<Rightarrow> Inr (h2, v)) = Inr (h', v')"
  shows "member_effect N this h v h' v'"
proof -
  from e have st: "store h (ptr_add (m_data v) i) (Some x) = Inr h'" and v': "v' = v"
    by (auto simp: operator_index_def split: sum.splits)
  have "fst (ptr_add (m_data v) i) = fst (m_data v)"
    by (simp add: ptr_add_def)
  with inv show ?thesis
    unfolding v' using st by (rule store_effect)
qed

subsection \<open>Every reachable world satisfies the invariant\<close>

lemma world_inv_objD: "world_inv N w \<Longrightarrow> objs w a = Some v \<Longrightarrow> obj_inv N a (heap w) v"
  by (simp add: world_inv_def)

lemma world_inv_distD:
  "world_inv N w \<Longrightarrow> objs w a = Some v \<Longrightarrow> objs w a' = Some v' \<Longrightarrow> a \<noteq> a' \<Longrightarrow>
   fst (m_data v) \<noteq> fst (m_data v')"
  unfolding world_inv_def by blast

lemma other_preserved:
  assumes u: "obj_inv N a' h u" and ne: "a' \<noteq> a"
    and x: "x = StaticMem a \<or> (\<exists>b. x = HeapBlock b)" and ux: "fst (m_data u) \<noteq> x"
    and frame: "\<forall>r. r \<noteq> StaticMem a \<and> r \<noteq> x \<and> (\<forall>b. r = HeapBlock b \<longrightarrow> b < next_block h)
                  \<longrightarrow> mem h' r = mem h r"
    and nb: "next_block h \<le> next_block h'"
  shows "obj_inv N a' h' u"
  using u
proof (rule obj_inv_frame)
  show "mem h' (StaticMem a') = mem h (StaticMem a')"
    using frame ne x by auto
  from u obtain r where "m_data u = (r, 0)"
    "r = StaticMem a' \<or> (\<exists>b. r = HeapBlock b \<and> b < next_block h)"
    by (rule obj_inv_data)
  then show "mem h' (fst (m_data u)) = mem h (fst (m_data u))"
    using frame ne ux by auto
  show "next_block h \<le> next_block h'"
    by (rule nb)
qed

lemma obj_inv_region:
  assumes "obj_inv N a h v"
  shows "fst (m_data v) = StaticMem a \<or> (\<exists>b. fst (m_data v) = HeapBlock b \<and> b < next_block h)"
  using assms by (rule obj_inv_data) auto

lemma world_inv_put:
  assumes w: "world_inv N w" and new: "obj_inv N a h' v'"
    and nb: "next_block (heap w) \<le> next_block h'"
    and x: "x = StaticMem a \<or> (\<exists>b. x = HeapBlock b)"
    and ox: "\<forall>a' u. a' \<noteq> a \<and> objs w a' = Some u \<longrightarrow> fst (m_data u) \<noteq> x"
    and frame: "\<forall>r. r \<noteq> StaticMem a \<and> r \<noteq> x \<and> (\<forall>b. r = HeapBlock b \<longrightarrow> b < next_block (heap w))
                  \<longrightarrow> mem h' r = mem (heap w) r"
    and region: "fst (m_data v') = StaticMem a \<or> fst (m_data v') = x
                 \<or> (\<exists>b. fst (m_data v') = HeapBlock b \<and> next_block (heap w) \<le> b)"
  shows "world_inv N (w\<lparr>objs := (objs w)(a \<mapsto> v'), heap := h'\<rparr>)"
proof -
  let ?w' = "w\<lparr>objs := (objs w)(a \<mapsto> v'), heap := h'\<rparr>"
  have keep: "obj_inv N a' h' u" if "a' \<noteq> a" "objs w a' = Some u" for a' u
    using world_inv_objD [OF w that(2)] that(1) x _ frame nb
  proof (rule other_preserved)
    show "fst (m_data u) \<noteq> x"
      using ox that by blast
  qed
  have one: "obj_inv N b (heap ?w') u" if "objs ?w' b = Some u" for b u
    using that new keep by (cases "b = a") auto
  have apart: "fst (m_data v') \<noteq> fst (m_data u)" if "a' \<noteq> a" "objs w a' = Some u" for a' u
  proof -
    from obj_inv_region [OF world_inv_objD [OF w that(2)]]
    have ru: "fst (m_data u) = StaticMem a'
        \<or> (\<exists>b. fst (m_data u) = HeapBlock b \<and> b < next_block (heap w))" .
    have "fst (m_data u) \<noteq> x"
      using ox that by blast
    with region ru that(1) show ?thesis
      by auto
  qed
  have two: "fst (m_data u) \<noteq> fst (m_data u')"
    if "objs ?w' b = Some u" "objs ?w' b' = Some u'" "b \<noteq> b'" for b b' u u'
  proof (cases "b = a")
    case True
    with that apart [of b' u'] show ?thesis by auto
  next
    case False
    show ?thesis
    proof (cases "b' = a")
      case True
      with that False apart [of b u] show ?thesis by auto
    next
      case nb': False
      with that False show ?thesis
        using world_inv_distD [OF w, of b u b' u'] by simp
    qed
  qed
  show ?thesis
    unfolding world_inv_def using one two by blast
qed

lemma world_inv_update:
  assumes w: "world_inv N w" and a: "objs w a = Some v"
    and eff: "member_effect N a (heap w) v h' v'"
  shows "world_inv N (w\<lparr>objs := (objs w)(a \<mapsto> v'), heap := h'\<rparr>)"
  using w
proof (rule world_inv_put [where x = "fst (m_data v)"])
  show "obj_inv N a h' v'" "next_block (heap w) \<le> next_block h'"
    using eff by (simp_all add: member_effect_def)
  show "fst (m_data v) = StaticMem a \<or> (\<exists>b. fst (m_data v) = HeapBlock b)"
    using obj_inv_region [OF world_inv_objD [OF w a]] by auto
  show "\<forall>a' u. a' \<noteq> a \<and> objs w a' = Some u \<longrightarrow> fst (m_data u) \<noteq> fst (m_data v)"
    using world_inv_distD [OF w _ a] by blast
  show "\<forall>r. r \<noteq> StaticMem a \<and> r \<noteq> fst (m_data v)
          \<and> (\<forall>b. r = HeapBlock b \<longrightarrow> b < next_block (heap w)) \<longrightarrow> mem h' r = mem (heap w) r"
    using eff by (simp add: member_effect_def)
  show "fst (m_data v') = StaticMem a \<or> fst (m_data v') = fst (m_data v)
          \<or> (\<exists>b. fst (m_data v') = HeapBlock b \<and> next_block (heap w) \<le> b)"
    using eff by (simp add: member_effect_def)
qed

lemma world_inv_remove:
  assumes w: "world_inv N w" and a: "objs w a = Some v"
    and nb: "next_block (heap w) \<le> next_block h'"
    and frame: "\<forall>r. r \<noteq> StaticMem a \<and> r \<noteq> fst (m_data v) \<longrightarrow> mem h' r = mem (heap w) r"
  shows "world_inv N (w\<lparr>objs := (objs w)(a := None), heap := h'\<rparr>)"
proof -
  let ?w' = "w\<lparr>objs := (objs w)(a := None), heap := h'\<rparr>"
  have x: "fst (m_data v) = StaticMem a \<or> (\<exists>b. fst (m_data v) = HeapBlock b)"
    using obj_inv_region [OF world_inv_objD [OF w a]] by auto
  have keep: "obj_inv N a' h' u" if "a' \<noteq> a" "objs w a' = Some u" for a' u
    using world_inv_objD [OF w that(2)] that(1) x
  proof (rule other_preserved)
    show "fst (m_data u) \<noteq> fst (m_data v)"
      using world_inv_distD [OF w that(2) a that(1)] .
    show "\<forall>r. r \<noteq> StaticMem a \<and> r \<noteq> fst (m_data v)
        \<and> (\<forall>b. r = HeapBlock b \<longrightarrow> b < next_block (heap w)) \<longrightarrow> mem h' r = mem (heap w) r"
      using frame by blast
    show "next_block (heap w) \<le> next_block h'"
      by (rule nb)
  qed
  have one: "obj_inv N b (heap ?w') u" if "objs ?w' b = Some u" for b u
    using that keep by (cases "b = a") auto
  have two: "fst (m_data u) \<noteq> fst (m_data u')"
    if "objs ?w' b = Some u" "objs ?w' b' = Some u'" "b \<noteq> b'" for b b' u u'
    using that world_inv_distD [OF w, of b u b' u'] by (cases "b = a"; cases "b' = a") auto
  show ?thesis
    unfolding world_inv_def using one two by blast
qed

lemma world_inv_new:
  assumes w: "world_inv N w" and new: "obj_inv N a h' v'"
    and nb: "next_block (heap w) \<le> next_block h'"
    and frame: "\<forall>r. r \<noteq> StaticMem a \<and> (\<forall>b. r = HeapBlock b \<longrightarrow> b < next_block (heap w))
                  \<longrightarrow> mem h' r = mem (heap w) r"
    and region: "fst (m_data v') = StaticMem a
                 \<or> (\<exists>b. fst (m_data v') = HeapBlock b \<and> next_block (heap w) \<le> b)"
  shows "world_inv N (w\<lparr>objs := (objs w)(a \<mapsto> v'), heap := h'\<rparr>)"
  using w new nb
proof (rule world_inv_put [where x = "StaticMem a"])
  show "StaticMem a = StaticMem a \<or> (\<exists>b. StaticMem a = HeapBlock b)"
    by simp
  show "\<forall>a' u. a' \<noteq> a \<and> objs w a' = Some u \<longrightarrow> fst (m_data u) \<noteq> StaticMem a"
  proof (intro allI impI)
    fix a' u
    assume "a' \<noteq> a \<and> objs w a' = Some u"
    then show "fst (m_data u) \<noteq> StaticMem a"
      using obj_inv_region [OF world_inv_objD [OF w, of a' u]] by auto
  qed
  show "\<forall>r. r \<noteq> StaticMem a \<and> r \<noteq> StaticMem a
          \<and> (\<forall>b. r = HeapBlock b \<longrightarrow> b < next_block (heap w)) \<longrightarrow> mem h' r = mem (heap w) r"
    using frame by blast
  show "fst (m_data v') = StaticMem a \<or> fst (m_data v') = StaticMem a
          \<or> (\<exists>b. fst (m_data v') = HeapBlock b \<and> next_block (heap w) \<le> b)"
    using region by blast
qed

lemma call_member_inv:
  assumes w: "world_inv N w" and c: "call_member w a f = Inr w'"
    and eff: "\<And>v h' v'. objs w a = Some v \<Longrightarrow> obj_inv N a (heap w) v \<Longrightarrow>
                f (heap w) v = Inr (h', v') \<Longrightarrow> member_effect N a (heap w) v h' v'"
  shows "world_inv N w'"
proof -
  from c obtain v h' v' where a: "objs w a = Some v" and f: "f (heap w) v = Inr (h', v')"
    and w': "w' = w\<lparr>objs := (objs w)(a \<mapsto> v'), heap := h'\<rparr>"
    by (auto simp: call_member_def split: option.splits sum.splits)
  have "member_effect N a (heap w) v h' v'"
    using a world_inv_objD [OF w a] f by (rule eff)
  with w a show ?thesis
    unfolding w' by (rule world_inv_update)
qed

lemma drop_iterator_Inr_D: "drop_iterator r = Inr s \<Longrightarrow> \<exists>it. r = Inr (s, it)"
  by (auto simp: drop_iterator_def split: sum.splits)

lemma VLVector_default_obj_inv:
  assumes "VLVector_default N this h = (h0, v0)"
  shows "obj_inv N this h0 v0" "next_block h0 = next_block h"
    "\<forall>r. r \<noteq> StaticMem this \<longrightarrow> mem h0 r = mem h r"
    "m_data v0 = (StaticMem this, 0)" "mem h0 (StaticMem this) = Some (replicate N None)"
  using assms
  by (auto simp: VLVector_default_def obj_inv_def container_inv_def storage_inv_def
        inline_mode_def)

lemma construct_inv:
  assumes w: "world_inv N w" and e: "exec N w (Construct this) = Inr w'"
  shows "world_inv N w'"
proof -
  obtain h0 v0 where d: "VLVector_default N this (heap w) = (h0, v0)"
    by (cases "VLVector_default N this (heap w)")
  from e have w': "w' = w\<lparr>objs := (objs w)(this \<mapsto> v0), heap := h0\<rparr>"
    by (simp add: d split: if_splits)
  note f = VLVector_default_obj_inv [OF d]
  show ?thesis
    unfolding w' using w f(1)
    by (rule world_inv_new) (simp_all add: f)
qed

lemma copy_construct_inv:
  assumes w: "world_inv N w" and e: "exec N w (CopyConstruct this other) = Inr w'"
  shows "world_inv N w'"
proof -
  obtain h0 v0 where d: "VLVector_default N this (heap w) = (h0, v0)"
    by (cases "VLVector_default N this (heap w)")
  note f = VLVector_default_obj_inv [OF d]
  from e obtain u h' v' where free: "objs w this = None" and o: "objs w other = Some u"
    and c: "copyMembers N h0 v0 u = Inr (h', v')"
    and w': "w' = w\<lparr>objs := (objs w)(this \<mapsto> v'), heap := h'\<rparr>"
    by (auto simp: VLVector_copy_def d split: if_splits option.splits sum.splits)
  have ne: "other \<noteq> this"
    using free o by auto
  have ou: "obj_inv N other (heap w) u"
    using w o by (rule world_inv_objD)
  have ru: "fst (m_data u) \<noteq> StaticMem this"
    using obj_inv_region [OF ou] ne by auto
  have u0: "obj_inv N other h0 u"
    using ou
  proof (rule obj_inv_frame)
    show "mem h0 (StaticMem other) = mem (heap w) (StaticMem other)"
      using f(3) ne by simp
    show "mem h0 (fst (m_data u)) = mem (heap w) (fst (m_data u))"
      using f(3) ru by simp
    show "next_block (heap w) \<le> next_block h0"
      using f(2) by simp
  qed
  have l: "length (replicate N (None :: 'a option)) = N"
    by simp
  have tgt: "StaticMem this = StaticMem this
      \<or> (\<exists>b. StaticMem this = HeapBlock b \<and> b < next_block h0 \<and> mem h0 (StaticMem this) = None)"
    by simp
  from copyMembers_effect [OF u0 f(5) l f(4) tgt ru ru c]
  have eff: "obj_inv N this h' v'" "next_block h0 \<le> next_block h'"
    "\<forall>r'. r' \<noteq> StaticMem this \<and> (\<forall>b. r' = HeapBlock b \<longrightarrow> b < next_block h0)
          \<longrightarrow> mem h' r' = mem h0 r'"
    "fst (m_data v') = StaticMem this \<or> fst (m_data v') = StaticMem this
        \<or> (\<exists>b. fst (m_data v') = HeapBlock b \<and> next_block h0 \<le> b)"
    by blast+
  show ?thesis
    unfolding w' using w eff(1)
  proof (rule world_inv_new)
    show "next_block (heap w) \<le> next_block h'"
      using eff(2) f(2) by simp
    show "\<forall>r. r \<noteq> StaticMem this \<and> (\<forall>b. r = HeapBlock b \<longrightarrow> b < next_block (heap w))
          \<longrightarrow> mem h' r = mem (heap w) r"
      using eff(3) f(2,3) by simp
    show "fst (m_data v') = StaticMem this
          \<or> (\<exists>b. fst (m_data v') = HeapBlock b \<and> next_block (heap w) \<le> b)"
      using eff(4) f(2) by auto
  qed
qed

lemma range_construct_inv:
  assumes w: "world_inv N w" and e: "exec N w (RangeConstruct this first lastp) = Inr w'"
  shows "world_inv N w'"
proof -
  obtain h0 v0 where d: "VLVector_default N this (heap w) = (h0, v0)"
    by (cases "VLVector_default N this (heap w)")
  note f = VLVector_default_obj_inv [OF d]
  from e obtain h' v' it where
    c: "insert_range N h0 v0 (begin_it v0) first lastp = Inr ((h', v'), it)"
    and w': "w' = w\<lparr>objs := (objs w)(this \<mapsto> v'), heap := h'\<rparr>"
    by (auto simp: VLVector_range_def d split: if_splits option.splits sum.splits)
  from insert_range_effect [OF f(1) c]
  have eff: "obj_inv N this h' v'" "next_block h0 \<le> next_block h'"
    "\<forall>r. r \<noteq> StaticMem this \<and> r \<noteq> fst (m_data v0)
          \<and> (\<forall>b. r = HeapBlock b \<longrightarrow> b < next_block h0) \<longrightarrow> mem h' r = mem h0 r"
    "fst (m_data v') = StaticMem this \<or> fst (m_data v') = fst (m_data v0)
        \<or> (\<exists>b. fst (m_data v') = HeapBlock b \<and> next_block h0 \<le> b)"
    by (simp_all add: member_effect_def)
  show ?thesis
    unfolding w' using w eff(1)
  proof (rule world_inv_new)
    show "next_block (heap w) \<le> next_block h'"
      using eff(2) f(2) by simp
    show "\<forall>r. r \<noteq> StaticMem this \<and> (\<forall>b. r = HeapBlock b \<longrightarrow> b < next_block (heap w))
          \<longrightarrow> mem h' r = mem (heap w) r"
      using eff(3) f(2,3,4) by simp
    show "fst (m_data v') = StaticMem this
          \<or> (\<exists>b. fst (m_data v') = HeapBlock b \<and> next_block (heap w) \<le> b)"
      using eff(4) f(2,4) by auto
  qed
qed

lemma destroy_inv:
  assumes w: "world_inv N w" and e: "exec N w (Destroy this) = Inr w'"
  shows "world_inv N w'"
proof -
  from e obtain v h' where a: "objs w this = Some v"
    and d: "VLVector_destroy N this (heap w) v = Inr h'"
    and w': "w' = w\<lparr>objs := (objs w)(this := None), heap := h'\<rparr>"
    by (auto split: option.splits sum.splits)
  from d obtain h1 where
    h1: "(if N < m_capacity v then delete_array (heap w) (Some (m_data v)) else Inr (heap w))
          = Inr h1"
    and h': "h' = h1\<lparr>mem := (mem h1)(StaticMem this := None)\<rparr>"
    by (auto simp: VLVector_destroy_def split: sum.splits)
  have h1f: "next_block h1 = next_block (heap w)
      \<and> (\<forall>r. r \<noteq> fst (m_data v) \<longrightarrow> mem h1 r = mem (heap w) r)"
    using h1
    by (auto simp: delete_array_def split: if_splits option.splits prod.splits region.splits)
  show ?thesis
    unfolding w' using w a
  proof (rule world_inv_remove)
    show "next_block (heap w) \<le> next_block h'"
      using h1f by (simp add: h')
    show "\<forall>r. r \<noteq> StaticMem this \<and> r \<noteq> fst (m_data v) \<longrightarrow> mem h' r = mem (heap w) r"
      using h1f by (simp add: h')
  qed
qed

lemma assign_inv:
  assumes w: "world_inv N w" and e: "exec N w (Assign this other) = Inr w'"
  shows "world_inv N w'"
proof -
  from e obtain u where o: "objs w other = Some u"
    and c: "call_member w this (\<lambda>h v. operator_assign N this h v other u) = Inr w'"
    by (auto split: option.splits)
  from w c show ?thesis
  proof (rule call_member_inv)
    fix v h' v'
    assume a: "objs w this = Some v" and v: "obj_inv N this (heap w) v"
      and r: "operator_assign N this (heap w) v other u = Inr (h', v')"
    have "other \<noteq> this \<longrightarrow> fst (m_data u) \<noteq> fst (m_data v)"
      using world_inv_distD [OF w o a] by simp
    with v world_inv_objD [OF w o] show "member_effect N this (heap w) v h' v'"
      using r by (rule operator_assign_effect)
  qed
qed

lemma client_array_inv:
  assumes w: "world_inv N w"
    and fr: "\<forall>r. r \<noteq> ClientArray a \<longrightarrow> mem h' r = mem (heap w) r"
    and nb: "next_block h' = next_block (heap w)"
  shows "world_inv N (w\<lparr>heap := h'\<rparr>)"
proof -
  have one: "obj_inv N b h' u" if "objs w b = Some u" for b u
    using world_inv_objD [OF w that]
  proof (rule obj_inv_frame)
    show "mem h' (StaticMem b) = mem (heap w) (StaticMem b)"
      using fr by simp
    show "mem h' (fst (m_data u)) = mem (heap w) (fst (m_data u))"
      using obj_inv_region [OF world_inv_objD [OF w that]] fr by auto
    show "next_block (heap w) \<le> next_block h'"
      using nb by simp
  qed
  have two: "fst (m_data u) \<noteq> fst (m_data u')"
    if "objs w b = Some u" "objs w b' = Some u'" "b \<noteq> b'" for b b' u u'
    using world_inv_distD [OF w that] .
  show ?thesis
    unfolding world_inv_def using one two by simp blast
qed

lemma exec_world_inv:
  assumes w: "world_inv N w" and e: "exec N w c = Inr w'"
  shows "world_inv N w'"
proof (cases c)
  case (Construct this)
  with w e show ?thesis by (simp only: construct_inv)
next
  case (CopyConstruct this other)
  with w e show ?thesis by (simp only: copy_construct_inv)
next
  case (RangeConstruct this first lastp)
  with w e show ?thesis by (simp only: range_construct_inv)
next
  case (Destroy this)
  with w e show ?thesis by (simp only: destroy_inv)
next
  case (Insert this pos x)
  with e have "call_member w this (\<lambda>h v. drop_iterator (insert_value N h v pos x)) = Inr w'"
    by simp
  with w show ?thesis
    by (rule call_member_inv) (auto dest!: drop_iterator_Inr_D intro: insert_value_effect)
next
  case (InsertRange this pos first lastp)
  with e have "call_member w this
      (\<lambda>h v. drop_iterator (insert_range N h v pos first lastp)) = Inr w'"
    by simp
  with w show ?thesis
    by (rule call_member_inv) (auto dest!: drop_iterator_Inr_D intro: insert_range_effect)
next
  case (PushBack this x)
  with e have "call_member w this (\<lambda>h v. push_back N h v x) = Inr w'"
    by simp
  with w show ?thesis
    by (rule call_member_inv) (rule push_back_effect)
next
  case (PopBack this)
  with e have "call_member w this (\<lambda>h v. pop_back N this h v) = Inr w'"
    by simp
  with w show ?thesis
    by (rule call_member_inv) (rule pop_back_effect)
next
  case (Erase this first lastp)
  with e have "call_member w this (\<lambda>h v. drop_iterator (erase N this h v first lastp)) = Inr w'"
    by simp
  with w show ?thesis
    by (rule call_member_inv) (auto dest!: drop_iterator_Inr_D intro: erase_effect)
next
  case (ErasePos this pos)
  with e have "call_member w this (\<lambda>h v. drop_iterator (erase_pos N this h v pos)) = Inr w'"
    by simp
  with w show ?thesis
    by (rule call_member_inv) (auto dest!: drop_iterator_Inr_D intro: erase_pos_effect)
next
  case (Clear this)
  with e have "call_member w this (\<lambda>h v. clear N this h v) = Inr w'"
    by simp
  with w show ?thesis
    by (rule call_member_inv) (rule clear_effect)
next
  case (Assign this other)
  with w e show ?thesis by (simp only: assign_inv)
next
  case (WriteAt this i x)
  with e have "call_member w this
       (\<lambda>h v. case at_ref h v i of
                 ((h1, v1), Inl e) \<Rightarrow> Inl e
               | ((h1, v1), Inr p) \<Rightarrow>
                   (case store h1 p (Some x) of
                      Inl e \<Rightarrow> Inl e
                    | Inr h2 \<Rightarrow> Inr (h2, v1))) = Inr w'"
    by simp
  with w show ?thesis
    by (rule call_member_inv) (rule at_ref_write_effect)
next
  case (WriteIndex this i x)
  with e have "call_member w this
       (\<lambda>h v. case store h (operator_index v i) (Some x) of
                 Inl e \<Rightarrow> Inl e
               | Inr h' \<Rightarrow> Inr (h', v)) = Inr w'"
    by simp
  with w show ?thesis
    by (rule call_member_inv) (rule index_write_effect)
next
  case (DeclareArray a xs)
  with e have w': "w' = w\<lparr>heap := (heap w)\<lparr>mem := (mem (heap w))(ClientArray a \<mapsto> map Some xs)\<rparr>\<rparr>"
    by (simp split: if_splits)
  show ?thesis
    unfolding w' using w by (rule client_array_inv [where a = a]) simp_all
next
  case (ReleaseArray a)
  with e have w': "w' = w\<lparr>heap := (heap w)\<lparr>mem := (mem (heap w))(ClientArray a := None)\<rparr>\<rparr>"
    by (simp split: if_splits)
  show ?thesis
    unfolding w' using w by (rule client_array_inv [where a = a]) simp_all
qed

lemma reachable_world_inv: "reachable N w \<Longrightarrow> world_inv N w"
proof (induction rule: reachable.induct)
  case start
  show ?case by (simp add: world_inv_def)
next
  case (step w c w')
  then show ?case by (simp only: exec_world_inv)
qed

subsection \<open>Erasing an empty range\<close>

lemma heap_world_reachable:
  "reachable 4
     \<lparr>objs = [0 \<mapsto> \<lparr>m_data = (HeapBlock 0, 0), m_size = 5, m_capacity = 7\<rparr>],
      heap = \<lparr>mem = [StaticMem 0 \<mapsto> replicate 4 None,
                     HeapBlock 0 \<mapsto> [Some (1::nat), Some 2, Some 3, Some 4, Some 5] @ replicate 2 None],
              next_block = 1\<rparr>\<rparr>"
proof -
  let ?w0 = "\<lparr>objs = Map.empty, heap = \<lparr>mem = Map.empty, next_block = 0\<rparr>\<rparr> :: nat world"
  let ?v1 = "\<lparr>m_data = (StaticMem 0, 0), m_size = 0, m_capacity = 4\<rparr>"
  let ?h1 = "\<lparr>mem = [StaticMem 0 \<mapsto> replicate 4 None], next_block = 0\<rparr> :: nat memory"
  let ?w1 = "\<lparr>objs = [0 \<mapsto> ?v1], heap = ?h1\<rparr>"
  let ?src = "map Some [1::nat, 2, 3, 4, 5]"
  let ?h1a = "\<lparr>mem = [StaticMem 0 \<mapsto> replicate 4 None, ClientArray 0 \<mapsto> ?src],
              next_block = 0\<rparr>"
  let ?w1a = "\<lparr>objs = [0 \<mapsto> ?v1], heap = ?h1a\<rparr>"
  let ?v2 = "\<lparr>m_data = (HeapBlock 0, 0), m_size = 5, m_capacity = 7\<rparr>"
  let ?blk = "[Some (1::nat), Some 2, Some 3, Some 4, Some 5] @ replicate 2 None"
  let ?h2a = "\<lparr>mem = [StaticMem 0 \<mapsto> replicate 4 None, ClientArray 0 \<mapsto> ?src,
                      HeapBlock 0 \<mapsto> ?blk],
              next_block = 1\<rparr>"
  let ?w2a = "\<lparr>objs = [0 \<mapsto> ?v2], heap = ?h2a\<rparr>"
  let ?h2 = "\<lparr>mem = [StaticMem 0 \<mapsto> replicate 4 None, HeapBlock 0 \<mapsto> ?blk],
              next_block = 1\<rparr>"
  let ?w2 = "\<lparr>objs = [0 \<mapsto> ?v2], heap = ?h2\<rparr>"
  have e1: "exec 4 ?w0 (Construct 0) = Inr ?w1"
    by (simp add: VLVector_default_def)
  have e2: "exec 4 ?w1 (DeclareArray 0 [1, 2, 3, 4, 5]) = Inr ?w1a"
    by simp
  have l5: "length ?src = 5"
    by simp
  have c: "cap 4 ?v1 5 = 7"
    by (simp add: cap_eq)
  have "pushAt 4 ?h1a ?v1 (StaticMem 0, 0) (length ?src)
      (\<lambda>h' v'. std_copy h' (ClientArray 0, 0) (ClientArray 0, 5) (ptr_add (m_data v') 0))
    = Inr (?h1a\<lparr>mem := (if m_capacity ?v1 \<le> 4 then mem ?h1a
                           else (mem ?h1a)(StaticMem 0 := None))
              (HeapBlock (next_block ?h1a) \<mapsto> take 0 (replicate 4 None) @ ?src
                 @ take (m_size ?v1 - 0) (drop 0 (replicate 4 None))
                 @ replicate (cap 4 ?v1 (length ?src) - (m_size ?v1 + length ?src)) None),
             next_block := Suc (next_block ?h1a)\<rparr>,
           ?v1\<lparr>m_capacity := cap 4 ?v1 (length ?src),
              m_data := (HeapBlock (next_block ?h1a), 0),
              m_size := m_size ?v1 + length ?src\<rparr>)"
  proof (rule pushAt_realloc)
    fix c' :: "nat option list"
    assume "length c' = cap 4 ?v1 (length ?src)"
    then have l: "length c' = 7"
      unfolding l5 c .
    let ?g = "?h1a\<lparr>mem := (mem ?h1a)(HeapBlock (next_block ?h1a) \<mapsto> c'),
                   next_block := Suc (next_block ?h1a)\<rparr>"
    have "std_copy ?g (ClientArray 0, 0) (ClientArray 0, 5) (HeapBlock 0, 0)
      = Inr (?g\<lparr>mem := (mem ?g)(HeapBlock 0 \<mapsto> take 0 c' @ take (5 - 0) (drop 0 ?src)
           @ drop (0 + (5 - 0)) c')\<rparr>)"
      using l by (intro std_copy_other) simp_all
    then show "std_copy ?g (ClientArray 0, 0) (ClientArray 0, 5)
        (ptr_add (m_data (?v1\<lparr>m_capacity := cap 4 ?v1 (length ?src),
                           m_data := (HeapBlock (next_block ?h1a), 0)\<rparr>)) 0)
      = Inr (?h1a\<lparr>mem := (mem ?h1a)(HeapBlock (next_block ?h1a) \<mapsto>
                 take 0 c' @ ?src @ drop (0 + length ?src) c'),
               next_block := Suc (next_block ?h1a)\<rparr>)"
      unfolding l5 by (simp add: ptr_add_def)
  qed simp_all
  then have pa: "pushAt 4 ?h1a ?v1 (StaticMem 0, 0) 5
      (\<lambda>h' v'. std_copy h' (ClientArray 0, 0) (ClientArray 0, 5) (ptr_add (m_data v') 0))
      = Inr (?h2a, ?v2)"
    unfolding l5 c by simp
  have e3: "exec 4 ?w1a (InsertRange 0 (StaticMem 0, 0) (ClientArray 0, 0) (ClientArray 0, 5))
      = Inr ?w2a"
    using pa
    by (simp add: call_member_def drop_iterator_def insert_range_def Let_def begin_it_def
          ptr_diff_def)
  have "(mem ?h2a)(ClientArray 0 := None) = mem ?h2"
    by (auto simp: fun_eq_iff)
  then have e4: "exec 4 ?w2a (ReleaseArray 0) = Inr ?w2"
    by simp
  show ?thesis
    using reachable.step [OF reachable.step [OF reachable.step
      [OF reachable.step [OF reachable.start e1] e2] e3] e4] .
qed

text \<open>
  Claim C9. For every container of a world that a program reaches through the public
  operations and every position \<open>p\<close> in \<open>[begin, end]\<close>, \<open>erase(p, p)\<close> returns \<open>p\<close> and
  leaves the memory and the members of the container (size, capacity, storage and
  elements) as they were; the whole world is unchanged.
\<close>

theorem erase_empty_range_is_noop:
  assumes "reachable N w" and "objs w this = Some v" and "i \<le> m_size v"
  shows "erase N this (heap w) v (ptr_add (begin_it v) i) (ptr_add (begin_it v) i)
           = Inr ((heap w, v), ptr_add (begin_it v) i)
         \<and> exec N w (Erase this (ptr_add (begin_it v) i) (ptr_add (begin_it v) i)) = Inr w"
proof -
  have inv: "obj_inv N this (heap w) v"
    using reachable_world_inv [OF assms(1)] assms(2) by (rule world_inv_objD)
  from inv obtain r where d: "m_data v = (r, 0)"
    by (rule obj_inv_data)
  have p: "ptr_add (begin_it v) i = (r, i)"
    using d by (simp add: ptr_add_def begin_it_def)
  have "erase N this (heap w) v (r, i) (r, i) = Inr ((heap w, v), (r, i))"
    using inv
  proof (cases rule: obj_inv_cases)
    case container
    from container(1) obtain r' c where c': "m_data v = (r', 0)" "mem (heap w) r' = Some c"
      "length c = m_capacity v" "m_size v \<le> m_capacity v"
      by (rule storage_inv_data)
    then have c: "mem (heap w) r = Some c" "length c = m_capacity v" "m_size v \<le> m_capacity v"
      using d by simp_all
    have ns: "\<not> (N < m_capacity v \<and> m_size v \<le> N)"
      using container(1)
    proof (cases rule: storage_inv_cases)
      case (inline c0)
      then show ?thesis by simp
    next
      case (heap c0 b c1)
      then show ?thesis using container(2) by (simp add: inline_mode_def)
    qed
    show ?thesis
      using d ns c assms(3) by (intro erase_empty_range) auto
  next
    case dangling
    have "m_capacity v = N" "m_size v = 0"
      using dangling_empty_D [OF dangling] by simp_all
    then show ?thesis
      using d assms(3) by (intro erase_empty_range) auto
  qed
  then have e: "erase N this (heap w) v (ptr_add (begin_it v) i) (ptr_add (begin_it v) i)
           = Inr ((heap w, v), ptr_add (begin_it v) i)"
    unfolding p .
  have "(objs w)(this \<mapsto> v) = objs w"
    using assms(2) by (simp add: fun_upd_idem)
  then have "exec N w (Erase this (ptr_add (begin_it v) i) (ptr_add (begin_it v) i)) = Inr w"
    using assms(2) by (simp add: call_member_def drop_iterator_def e)
  with e show ?thesis
    by simp
qed

theorem erase_empty_range_is_noop_witness:
  "reachable 4
     \<lparr>objs = [0 \<mapsto> \<lparr>m_data = (HeapBlock 0, 0), m_size = 5, m_capacity = 7\<rparr>],
      heap = \<lparr>mem = [StaticMem 0 \<mapsto> replicate 4 None,
                     HeapBlock 0 \<mapsto> [Some (1::nat), Some 2, Some 3, Some 4, Some 5] @ replicate 2 None],
              next_block = 1\<rparr>\<rparr>
   \<and> erase 4 0
        \<lparr>mem = [StaticMem 0 \<mapsto> replicate 4 None,
                HeapBlock 0 \<mapsto> [Some (1::nat), Some 2, Some 3, Some 4, Some 5] @ replicate 2 None],
         next_block = 1\<rparr>
        \<lparr>m_data = (HeapBlock 0, 0), m_size = 5, m_capacity = 7\<rparr>
        (HeapBlock 0, 2) (HeapBlock 0, 2)
      = Inr ((\<lparr>mem = [StaticMem 0 \<mapsto> replicate 4 None,
                      HeapBlock 0 \<mapsto> [Some 1, Some 2, Some 3, Some 4, Some 5] @ replicate 2 None],
               next_block = 1\<rparr>,
              \<lparr>m_data = (HeapBlock 0, 0), m_size = 5, m_capacity = 7\<rparr>),
             (HeapBlock 0, 2))"
proof -
  let ?v2 = "\<lparr>m_data = (HeapBlock 0, 0), m_size = 5, m_capacity = 7\<rparr>"
  let ?h2 = "\<lparr>mem = [StaticMem 0 \<mapsto> replicate 4 None,
                     HeapBlock 0 \<mapsto> [Some (1::nat), Some 2, Some 3, Some 4, Some 5] @ replicate 2 None],
              next_block = 1\<rparr>"
  let ?w2 = "\<lparr>objs = [0 \<mapsto> ?v2], heap = ?h2\<rparr>"
  have r2: "reachable 4 ?w2"
    by (rule heap_world_reachable)
  have o: "objs ?w2 0 = Some ?v2" and i: "2 \<le> m_size ?v2"
    by simp_all
  from erase_empty_range_is_noop [OF r2 o i] r2 show ?thesis
    by (simp add: begin_it_def ptr_add_def numeral_2_eq_2)
qed

subsection \<open>Copy assignment\<close>

lemma copyMembers_from_heap:
  assumes du: "m_data u = (HeapBlock b, 0)" "b < next_block h" "mem h (HeapBlock b) = Some c"
    "length c = m_capacity u" "m_size u \<le> m_capacity u" and big: "N < m_capacity u"
  shows "copyMembers N h v u
    = Inr (h\<lparr>mem := (mem h)(HeapBlock (next_block h) \<mapsto>
               take (m_size u) c @ replicate (m_capacity u - m_size u) None),
             next_block := Suc (next_block h)\<rparr>,
           v\<lparr>m_data := (HeapBlock (next_block h), 0), m_capacity := m_capacity u,
              m_size := m_size u\<rparr>)"
proof -
  let ?K = "m_capacity u"
  let ?nb = "HeapBlock (next_block h)"
  define h0 where
    "h0 = h\<lparr>mem := (mem h)(?nb \<mapsto> replicate ?K None), next_block := Suc (next_block h)\<rparr>"
  define h1 where "h1 = h0\<lparr>mem := (mem h0)(?nb \<mapsto> take (m_size u) c
     @ replicate (?K - m_size u) None)\<rparr>"
  have na: "new_array h ?K = (h0, (?nb, 0))"
    by (simp add: new_array_def h0_def)
  have m0: "mem h0 (HeapBlock b) = Some c" "mem h0 ?nb = Some (replicate ?K None)"
    using du(2,3) by (simp_all add: h0_def)
  have ne: "HeapBlock b \<noteq> ?nb"
    using du(2) by simp
  have "std_copy h0 (HeapBlock b, 0) (HeapBlock b, m_size u) (?nb, 0)
    = Inr (h0\<lparr>mem := (mem h0)(?nb \<mapsto> take 0 (replicate ?K None)
        @ take (m_size u - 0) (drop 0 c) @ drop (0 + (m_size u - 0)) (replicate ?K None))\<rparr>)"
    using m0 ne du(4,5) by (intro std_copy_other) simp_all
  then have cp: "std_copy h0 (HeapBlock b, 0) (HeapBlock b, m_size u) (?nb, 0) = Inr h1"
    by (simp add: h1_def)
  have "copyMembers N h v u
    = Inr (h1, v\<lparr>m_data := (?nb, 0), m_capacity := ?K, m_size := m_size u\<rparr>)"
    by (simp add: copyMembers_def Let_def big na begin_it_def end_it_def ptr_add_def du(1) cp)
  then show ?thesis
    by (simp add: h1_def h0_def)
qed

lemma copyMembers_in_place:
  assumes du: "m_data u = (ru, 0)" "mem h ru = Some cs" "m_size u \<le> length cs"
    and small: "m_capacity u \<le> N"
    and dv: "m_data v = (r, 0)" "mem h r = Some c0" "m_size u \<le> length c0" and ne: "ru \<noteq> r"
  shows "copyMembers N h v u
    = Inr (h\<lparr>mem := (mem h)(r \<mapsto> take (m_size u) cs @ drop (m_size u) c0)\<rparr>,
           v\<lparr>m_capacity := m_capacity u, m_size := m_size u\<rparr>)"
proof -
  have "std_copy h (ru, 0) (ru, m_size u) (r, 0)
    = Inr (h\<lparr>mem := (mem h)(r \<mapsto> take 0 c0 @ take (m_size u - 0) (drop 0 cs)
        @ drop (0 + (m_size u - 0)) c0)\<rparr>)"
    using du dv ne by (intro std_copy_other) simp_all
  then have cp: "std_copy h (ru, 0) (ru, m_size u) (r, 0)
    = Inr (h\<lparr>mem := (mem h)(r \<mapsto> take (m_size u) cs @ drop (m_size u) c0)\<rparr>)"
    by simp
  have ns: "\<not> N < m_capacity u"
    using small by simp
  show ?thesis
    by (simp add: copyMembers_def Let_def ns begin_it_def end_it_def ptr_add_def du(1) dv(1) cp)
qed

lemma operator_assign_copies:
  assumes v: "storage_inv N this h v" and u: "storage_inv N other h u"
    and ne: "other \<noteq> this" and dist: "fst (m_data u) \<noteq> fst (m_data v)"
    and ok: "inline_mode this v \<or> heap_mode h u"
  shows "\<exists>h' v'. operator_assign N this h v other u = Inr (h', v')
         \<and> storage_inv N this h' v'
         \<and> contents h' v' = contents h u
         \<and> m_size v' = m_size u \<and> m_capacity v' = m_capacity u
         \<and> (heap_mode h u \<longrightarrow> m_data v' = (HeapBlock (next_block h), 0))
         \<and> (\<not> heap_mode h u \<longrightarrow> inline_mode this v')"
proof -
  from u obtain ru cu where du: "m_data u = (ru, 0)" "mem h ru = Some cu"
    "length cu = m_capacity u" "m_size u \<le> m_capacity u"
    "ru = StaticMem other \<and> m_capacity u = N
     \<or> (\<exists>b. ru = HeapBlock b \<and> b < next_block h \<and> N < m_capacity u)"
    by (rule storage_inv_data)
  from v obtain r cv where dv: "m_data v = (r, 0)" "mem h r = Some cv"
    "length cv = m_capacity v" "m_size v \<le> m_capacity v"
    "r = StaticMem this \<and> m_capacity v = N
     \<or> (\<exists>b. r = HeapBlock b \<and> b < next_block h \<and> N < m_capacity v)"
    by (rule storage_inv_data)
  from v obtain c0 where st: "mem h (StaticMem this) = Some c0" "length c0 = N"
    by (cases rule: storage_inv_cases) auto
  have rr: "ru \<noteq> r"
    using dist du(1) dv(1) by simp
  have ctu: "contents h u = take (m_size u) cu"
    using du by (simp add: contents_cells)
  define h1 where "h1 = (if N < m_capacity v then h\<lparr>mem := (mem h)(r := None)\<rparr> else h)"
  have dl: "(if N < m_capacity v then delete_array h (Some (m_data v)) else Inr h) = Inr h1"
    using dv by (auto simp: delete_array_def h1_def)
  have oa: "operator_assign N this h v other u = copyMembers N h1 v u"
    using ne by (simp add: operator_assign_def dl)
  have keep: "mem h1 ru = Some cu" "mem h1 (StaticMem this) = Some c0"
    "next_block h1 = next_block h"
    using du(2) st(1) rr dv(5) by (auto simp: h1_def)
  show ?thesis
  proof (cases "N < m_capacity u")
    case True
    with du(5) obtain b where b: "ru = HeapBlock b" "b < next_block h"
      by auto
    have hu: "heap_mode h u"
      using du(1,2) b by (simp add: heap_mode_def)
    let ?nb = "HeapBlock (next_block h)"
    let ?c' = "take (m_size u) cu @ replicate (m_capacity u - m_size u) None"
    let ?h' = "h1\<lparr>mem := (mem h1)(?nb \<mapsto> ?c'), next_block := Suc (next_block h)\<rparr>"
    let ?v' = "v\<lparr>m_data := (?nb, 0), m_capacity := m_capacity u, m_size := m_size u\<rparr>"
    have "copyMembers N h1 v u = Inr (?h', ?v')"
      using copyMembers_from_heap [of u b h1 cu N v] du b keep True by simp
    then have e: "operator_assign N this h v other u = Inr (?h', ?v')"
      by (simp add: oa)
    have l: "length ?c' = m_capacity u"
      using du(3,4) by simp
    have si: "storage_inv N this ?h' ?v'"
      using keep(2) st(2) True du(4) l by (simp add: storage_inv_def)
    have ct: "contents ?h' ?v' = contents h u"
      unfolding ctu using du(3,4) by (simp add: contents_def)
    show ?thesis
      using e si ct hu by (intro exI [of _ ?h'] exI [of _ ?v']) simp
  next
    case False
    with du(5) have su: "ru = StaticMem other" "m_capacity u = N"
      by auto
    have nhu: "\<not> heap_mode h u"
      using du(1) su by (simp add: heap_mode_def)
    with ok have iv: "inline_mode this v"
      by simp
    then have r: "r = StaticMem this" and cv: "m_capacity v = N"
      using dv(1,5) by (auto simp: inline_mode_def)
    have h1: "h1 = h"
      using cv by (simp add: h1_def)
    let ?c' = "take (m_size u) cu @ drop (m_size u) c0"
    let ?h' = "h\<lparr>mem := (mem h)(r \<mapsto> ?c')\<rparr>"
    let ?v' = "v\<lparr>m_capacity := m_capacity u, m_size := m_size u\<rparr>"
    have c0v: "cv = c0"
      using st(1) dv(2) r by simp
    have "copyMembers N h v u = Inr (?h', ?v')"
      using du dv rr su c0v st(2) ne by (intro copyMembers_in_place [where cs = cu]) auto
    then have e: "operator_assign N this h v other u = Inr (?h', ?v')"
      by (simp add: oa h1)
    have l: "length ?c' = N"
      using du(3,4) su st(2) by simp
    have si: "storage_inv N this ?h' ?v'"
      using l r su du(4) dv(1) by (simp add: storage_inv_def)
    have ct: "contents ?h' ?v' = contents h u"
      unfolding ctu using du(3,4) dv(1) by (simp add: contents_def)
    show ?thesis
      using e si ct nhu iv by (intro exI [of _ ?h'] exI [of _ ?v']) (simp add: inline_mode_def)
  qed
qed

lemma two_worlds_reachable:
  "reachable 4
     \<lparr>objs = [0 \<mapsto> \<lparr>m_data = (HeapBlock 0, 0), m_size = 5, m_capacity = 7\<rparr>,
              1 \<mapsto> \<lparr>m_data = (StaticMem 1, 0), m_size = 0, m_capacity = 4\<rparr>],
      heap = \<lparr>mem = [StaticMem 0 \<mapsto> replicate 4 None,
                     HeapBlock 0 \<mapsto> [Some (1::nat), Some 2, Some 3, Some 4, Some 5] @ replicate 2 None,
                     StaticMem 1 \<mapsto> replicate 4 None],
              next_block = 1\<rparr>\<rparr>"
  "reachable 4
     \<lparr>objs = [0 \<mapsto> \<lparr>m_data = (HeapBlock 0, 0), m_size = 5, m_capacity = 7\<rparr>,
              1 \<mapsto> \<lparr>m_data = (StaticMem 1, 0), m_size = 1, m_capacity = 4\<rparr>],
      heap = \<lparr>mem = [StaticMem 0 \<mapsto> replicate 4 None,
                     HeapBlock 0 \<mapsto> [Some (1::nat), Some 2, Some 3, Some 4, Some 5] @ replicate 2 None,
                     StaticMem 1 \<mapsto> [Some 9, None, None, None]],
              next_block = 1\<rparr>\<rparr>"
proof -
  let ?va = "\<lparr>m_data = (HeapBlock 0, 0), m_size = 5, m_capacity = 7\<rparr>"
  let ?ca = "[Some (1::nat), Some 2, Some 3, Some 4, Some 5] @ replicate 2 None"
  let ?w2 = "\<lparr>objs = [0 \<mapsto> ?va],
      heap = \<lparr>mem = [StaticMem 0 \<mapsto> replicate 4 None, HeapBlock 0 \<mapsto> ?ca], next_block = 1\<rparr>\<rparr>"
  let ?vb = "\<lparr>m_data = (StaticMem 1, 0), m_size = 0, m_capacity = 4\<rparr>"
  let ?h3 = "\<lparr>mem = [StaticMem 0 \<mapsto> replicate 4 None, HeapBlock 0 \<mapsto> ?ca,
                     StaticMem 1 \<mapsto> replicate 4 None], next_block = 1\<rparr>"
  let ?w3 = "\<lparr>objs = [0 \<mapsto> ?va, 1 \<mapsto> ?vb], heap = ?h3\<rparr>"
  let ?vb' = "\<lparr>m_data = (StaticMem 1, 0), m_size = 1, m_capacity = 4\<rparr>"
  let ?h4 = "\<lparr>mem = [StaticMem 0 \<mapsto> replicate 4 None, HeapBlock 0 \<mapsto> ?ca,
                     StaticMem 1 \<mapsto> [Some 9, None, None, None]], next_block = 1\<rparr>"
  let ?w4 = "\<lparr>objs = [0 \<mapsto> ?va, 1 \<mapsto> ?vb'], heap = ?h4\<rparr>"
  have e3: "exec 4 ?w2 (Construct 1) = Inr ?w3"
    by (simp add: VLVector_default_def)
  show r3: "reachable 4 ?w3"
    using reachable.step [OF heap_world_reachable e3] .
  have e4: "exec 4 ?w3 (PushBack 1 9) = Inr ?w4"
    by (simp add: call_member_def push_back_def cend_def pushAt_def Let_def end_it_def
          ptr_add_def ptr_diff_def std_copy_backward_def store_def delete_array_def
          eval_nat_numeral)
  show "reachable 4 ?w4"
    using reachable.step [OF r3 e4] .
qed

text \<open>
  Claim C1. After the copy assignment \<open>a = b\<close> the destination holds a deep copy of the
  live elements of the source and has its storage shape; in particular, when \<open>b\<close> is in
  inline mode the storage of \<open>a\<close> is its own inline array, also when \<open>a\<close> was in heap
  mode before. The code does not do this for a destination in heap mode and a source in
  inline mode: \<open>operator=\<close> releases the block of \<open>a\<close>, and \<open>_copyMembers\<close> sets
  \<open>_capacity\<close> but leaves \<open>_data\<close> pointing to the released block. In the world reached
  by constructing \<open>a\<close>, inserting 1..5 into it, constructing \<open>b\<close> and pushing 9 onto it,
  the copy of that element is a write through the dangling pointer. When \<open>b\<close> is empty
  the assignment returns, with \<open>_capacity\<close> equal to \<open>StaticCapacity\<close> and \<open>_data\<close> not the
  inline array but the released block, so that the storage invariant fails.
\<close>

theorem operator_assign_leaves_dangling_data:
  "reachable 4
     \<lparr>objs = [0 \<mapsto> \<lparr>m_data = (HeapBlock 0, 0), m_size = 5, m_capacity = 7\<rparr>,
              1 \<mapsto> \<lparr>m_data = (StaticMem 1, 0), m_size = 1, m_capacity = 4\<rparr>],
      heap = \<lparr>mem = [StaticMem 0 \<mapsto> replicate 4 None,
                     HeapBlock 0 \<mapsto> [Some (1::nat), Some 2, Some 3, Some 4, Some 5] @ replicate 2 None,
                     StaticMem 1 \<mapsto> [Some 9, None, None, None]],
              next_block = 1\<rparr>\<rparr>
   \<and> operator_assign 4 0
        \<lparr>mem = [StaticMem 0 \<mapsto> replicate 4 None,
                HeapBlock 0 \<mapsto> [Some (1::nat), Some 2, Some 3, Some 4, Some 5] @ replicate 2 None,
                StaticMem 1 \<mapsto> [Some 9, None, None, None]],
         next_block = 1\<rparr>
        \<lparr>m_data = (HeapBlock 0, 0), m_size = 5, m_capacity = 7\<rparr>
        1 \<lparr>m_data = (StaticMem 1, 0), m_size = 1, m_capacity = 4\<rparr>
      = Inl InvalidPointer
   \<and> reachable 4
     \<lparr>objs = [0 \<mapsto> \<lparr>m_data = (HeapBlock 0, 0), m_size = 5, m_capacity = 7\<rparr>,
              1 \<mapsto> \<lparr>m_data = (StaticMem 1, 0), m_size = 0, m_capacity = 4\<rparr>],
      heap = \<lparr>mem = [StaticMem 0 \<mapsto> replicate 4 None,
                     HeapBlock 0 \<mapsto> [Some (1::nat), Some 2, Some 3, Some 4, Some 5] @ replicate 2 None,
                     StaticMem 1 \<mapsto> replicate 4 None],
              next_block = 1\<rparr>\<rparr>
   \<and> operator_assign 4 0
        \<lparr>mem = [StaticMem 0 \<mapsto> replicate 4 None,
                HeapBlock 0 \<mapsto> [Some (1::nat), Some 2, Some 3, Some 4, Some 5] @ replicate 2 None,
                StaticMem 1 \<mapsto> replicate 4 None],
         next_block = 1\<rparr>
        \<lparr>m_data = (HeapBlock 0, 0), m_size = 5, m_capacity = 7\<rparr>
        1 \<lparr>m_data = (StaticMem 1, 0), m_size = 0, m_capacity = 4\<rparr>
      = Inr (\<lparr>mem = [StaticMem 0 \<mapsto> replicate 4 None, StaticMem 1 \<mapsto> replicate 4 None],
              next_block = 1\<rparr>,
             \<lparr>m_data = (HeapBlock 0, 0), m_size = 0, m_capacity = 4\<rparr>)
   \<and> \<not> inline_mode 0 \<lparr>m_data = (HeapBlock 0, 0), m_size = 0, m_capacity = 4\<rparr>
   \<and> \<not> storage_inv 4 0
        \<lparr>mem = [StaticMem 0 \<mapsto> replicate 4 (None :: nat option),
                StaticMem 1 \<mapsto> replicate 4 None],
         next_block = 1\<rparr>
        \<lparr>m_data = (HeapBlock 0, 0), m_size = 0, m_capacity = 4\<rparr>"
proof -
  let ?va = "\<lparr>m_data = (HeapBlock 0, 0), m_size = 5, m_capacity = 7\<rparr>"
  let ?ca = "[Some (1::nat), Some 2, Some 3, Some 4, Some 5] @ replicate 2 None"
  let ?h3 = "\<lparr>mem = [StaticMem 0 \<mapsto> replicate 4 None, HeapBlock 0 \<mapsto> ?ca,
                     StaticMem 1 \<mapsto> replicate 4 None], next_block = 1\<rparr>"
  let ?h4 = "\<lparr>mem = [StaticMem 0 \<mapsto> replicate 4 None, HeapBlock 0 \<mapsto> ?ca,
                     StaticMem 1 \<mapsto> [Some 9, None, None, None]], next_block = 1\<rparr>"
  have a: "operator_assign 4 0 ?h4 ?va 1 \<lparr>m_data = (StaticMem 1, 0), m_size = 1, m_capacity = 4\<rparr>
      = Inl InvalidPointer"
    by (simp add: operator_assign_def delete_array_def copyMembers_def Let_def begin_it_def
          end_it_def ptr_add_def std_copy_def ptr_diff_def load_def store_def)
  have b: "operator_assign 4 0 ?h3 ?va 1 \<lparr>m_data = (StaticMem 1, 0), m_size = 0, m_capacity = 4\<rparr>
      = Inr (\<lparr>mem = [StaticMem 0 \<mapsto> replicate 4 None, StaticMem 1 \<mapsto> replicate 4 None],
              next_block = 1\<rparr>,
             \<lparr>m_data = (HeapBlock 0, 0), m_size = 0, m_capacity = 4\<rparr>)"
    by (auto simp: operator_assign_def delete_array_def copyMembers_def Let_def begin_it_def
          end_it_def ptr_add_def std_copy_def ptr_diff_def fun_eq_iff)
  have c: "\<not> inline_mode 0 \<lparr>m_data = (HeapBlock 0, 0), m_size = 0, m_capacity = 4\<rparr>"
    by (simp add: inline_mode_def)
  have d: "\<not> storage_inv 4 0
        \<lparr>mem = [StaticMem 0 \<mapsto> replicate 4 (None :: nat option),
                StaticMem 1 \<mapsto> replicate 4 None],
         next_block = 1\<rparr>
        \<lparr>m_data = (HeapBlock 0, 0), m_size = 0, m_capacity = 4\<rparr>"
    by (simp add: storage_inv_def)
  show ?thesis
    using two_worlds_reachable a b c d by blast
qed

subsection \<open>Equality and inequality\<close>

lemma equal_loop_cells:
  "mem h r1 = Some c1 \<Longrightarrow> mem h r2 = Some c2 \<Longrightarrow> i + n \<le> length c1 \<Longrightarrow>
   j + n \<le> length c2 \<Longrightarrow>
   equal_loop h (r1, i) (r2, j) n = Inr (take n (drop i c1) = take n (drop j c2))"
proof (induction n arbitrary: i j)
  case 0
  then show ?case by simp
next
  case (Suc n)
  have l1: "load h (r1, i) = Inr (c1 ! i)" and l2: "load h (r2, j) = Inr (c2 ! j)"
    using Suc.prems by (simp_all add: load_Some)
  have ih: "equal_loop h (r1, Suc i) (r2, Suc j) n
      = Inr (take n (drop (Suc i) c1) = take n (drop (Suc j) c2))"
    using Suc.prems by (intro Suc.IH) simp_all
  have s1: "take (Suc n) (drop i c1) = c1 ! i # take n (drop (Suc i) c1)"
    and s2: "take (Suc n) (drop j c2) = c2 ! j # take n (drop (Suc j) c2)"
    using Suc.prems by (simp_all add: slice_step)
  show ?case
    by (simp add: l1 l2 ih s1 s2 ptr_add_def)
qed

lemma operator_eq_contents:
  assumes v: "storage_inv N a h v" and u: "storage_inv N b h u"
  shows "operator_eq h v u = Inr (contents h v = contents h u)"
proof -
  from v obtain r1 c1 where d1: "m_data v = (r1, 0)" "mem h r1 = Some c1"
    "length c1 = m_capacity v" "m_size v \<le> m_capacity v"
    by (rule storage_inv_data)
  from u obtain r2 c2 where d2: "m_data u = (r2, 0)" "mem h r2 = Some c2"
    "length c2 = m_capacity u" "m_size u \<le> m_capacity u"
    by (rule storage_inv_data)
  have ct: "contents h v = take (m_size v) c1" "contents h u = take (m_size u) c2"
    using d1 d2 by (simp_all add: contents_cells)
  show ?thesis
  proof (cases "m_size v = m_size u")
    case True
    have "equal_loop h (r1, 0) (r2, 0) (m_size v)
        = Inr (take (m_size v) (drop 0 c1) = take (m_size v) (drop 0 c2))"
      using d1 d2 True by (intro equal_loop_cells) simp_all
    then show ?thesis
      using True
      by (simp add: operator_eq_def std_equal_def ptr_diff_def begin_it_def end_it_def
            ptr_add_def d1(1) d2(1) ct)
  next
    case False
    then have "contents h v \<noteq> contents h u"
      using contents_length [OF v] contents_length [OF u] by metis
    then show ?thesis
      using False
      by (simp add: operator_eq_def ptr_diff_def begin_it_def end_it_def ptr_add_def d1(1) d2(1))
  qed
qed

text \<open>
  Claim C2. The inequality operator returns the negation of the equality operator. The
  equality operator is as the claim says (lemma \<open>operator_eq_contents\<close>: it returns
  whether the two sequences are equal). The body of \<^verbatim>\<open>operator!=\<close> is
  \<^verbatim>\<open>!operator=(other)\<close>: it names the copy assignment, not \<^verbatim>\<open>operator==\<close>. In a const
  member function that expression is ill-formed (the assignment needs a non-const
  object, and no \<^verbatim>\<open>operator!\<close> applies to a \<^verbatim>\<open>VLVector\<close>), so \<^verbatim>\<open>a != b\<close> has no value and no
  model here. At the containers \<open>[1]\<close> and \<open>[2]\<close> the equality operator returns false,
  so that the inequality the claim describes is true, while the call that the body names
  returns the destination with the elements of the source.
\<close>

theorem operator_eq_false_where_neq_calls_assignment:
  "operator_eq
     \<lparr>mem = [StaticMem 0 \<mapsto> [Some (1::nat), None, None, None],
             StaticMem 1 \<mapsto> [Some 2, None, None, None]], next_block = 0\<rparr>
     \<lparr>m_data = (StaticMem 0, 0), m_size = 1, m_capacity = 4\<rparr>
     \<lparr>m_data = (StaticMem 1, 0), m_size = 1, m_capacity = 4\<rparr>
   = Inr False
   \<and> operator_assign 4 0
     \<lparr>mem = [StaticMem 0 \<mapsto> [Some (1::nat), None, None, None],
             StaticMem 1 \<mapsto> [Some 2, None, None, None]], next_block = 0\<rparr>
     \<lparr>m_data = (StaticMem 0, 0), m_size = 1, m_capacity = 4\<rparr>
     1 \<lparr>m_data = (StaticMem 1, 0), m_size = 1, m_capacity = 4\<rparr>
   = Inr (\<lparr>mem = [StaticMem 0 \<mapsto> [Some 2, None, None, None],
                   StaticMem 1 \<mapsto> [Some 2, None, None, None]], next_block = 0\<rparr>,
          \<lparr>m_data = (StaticMem 0, 0), m_size = 1, m_capacity = 4\<rparr>)"
proof -
  let ?h = "\<lparr>mem = [StaticMem 0 \<mapsto> [Some (1::nat), None, None, None],
             StaticMem 1 \<mapsto> [Some 2, None, None, None]], next_block = 0\<rparr>"
  let ?a = "\<lparr>m_data = (StaticMem 0, 0), m_size = 1, m_capacity = 4\<rparr>"
  let ?b = "\<lparr>m_data = (StaticMem 1, 0), m_size = 1, m_capacity = 4\<rparr>"
  have "storage_inv 4 0 ?h ?a" "storage_inv 4 1 ?h ?b"
    by (simp_all add: storage_inv_def)
  then have "operator_eq ?h ?a ?b = Inr (contents ?h ?a = contents ?h ?b)"
    by (rule operator_eq_contents)
  then have e: "operator_eq ?h ?a ?b = Inr False"
    by (simp add: contents_def)
  have "operator_assign 4 0 ?h ?a 1 ?b
   = Inr (\<lparr>mem = [StaticMem 0 \<mapsto> [Some 2, None, None, None],
                   StaticMem 1 \<mapsto> [Some 2, None, None, None]], next_block = 0\<rparr>, ?a)"
    by (auto simp: operator_assign_def copyMembers_def Let_def begin_it_def
          end_it_def ptr_add_def std_copy_def ptr_diff_def load_def store_def fun_eq_iff)
  with e show ?thesis
    by simp
qed

end
